theory Spec2Isabelle
  imports
    Main
    "HOL-Library.Multiset"
    "HOL-Library.Word"
    "HOL-Library.Char_ord"
    "HOL-Library.List_Lexorder"
    "HOL-Library.Product_Lexorder"
begin

section \<open>Data model of monte\_carlo.py\<close>

text \<open>
  A piece is a one-character Python string. A stack is a Python list used with
  \<open>append\<close> and \<open>pop\<close>: the last element of the list is the exposed top.
\<close>

type_synonym piece = string
type_synonym stack = "piece list"

datatype error = IndexError | TypeError | ZeroDivisionError

text \<open>
  The \<open>row_ix\<close> field of a MovablePiece is a Python int for a grid cell and one of the
  strings \<open>"T"\<close>, \<open>"L"\<close>, \<open>"R"\<close> for a pile; \<open>col_ix\<close> is an int, or None for a pile.
\<close>

datatype pyrow = RowInt int | RowStr string

datatype MovablePiece =
  MovablePiece (row_ix: pyrow) (col_ix: "int option") (piece: piece) (depth: nat)

definition TOP :: pyrow where "TOP = RowStr ''T''"
definition LEFT :: pyrow where "LEFT = RowStr ''L''"
definition RIGHT :: pyrow where "RIGHT = RowStr ''R''"

type_synonym move = "MovablePiece \<times> MovablePiece"

text \<open>
  A namedtuple inherits \<open>__eq__\<close> from tuple: two values are equal when the tuples of
  their four fields are.
\<close>

definition MovablePiece_eq :: "MovablePiece \<Rightarrow> MovablePiece \<Rightarrow> bool" where
  "MovablePiece_eq a b =
     ((row_ix a, col_ix a, piece a, depth a) = (row_ix b, col_ix b, piece b, depth b))"

text \<open>\<open>str(n)\<close> for a non-negative int: its decimal digits.\<close>

definition digit_char :: "nat \<Rightarrow> char" where
  "digit_char d = char_of (d + 48)"

function str_nat :: "nat \<Rightarrow> string" where
  "str_nat n = (if n < 10 then [digit_char n] else str_nat (n div 10) @ [digit_char (n mod 10)])"
  by pat_completeness auto
termination
  by (relation "measure (\<lambda>n. n)") auto

declare str_nat.simps [simp del]

definition PIECES :: "piece list" where
  "PIECES = map str_nat [0..<10] @ map (\<lambda>x. [char_of (x + 65)]) [0..<26]"

definition DEPTHS :: "nat list list" where
  "DEPTHS =
    [[1, 1, 1, 1, 1, 1, 1, 1, 1, 1, 1, 1],
     [1, 2, 2, 2, 2, 2, 2, 1],
     [1, 1, 2, 3, 3, 3, 3, 2, 1, 1],
     [1, 1, 1, 2, 3, 4, 4, 3, 2, 1, 1, 1],
     [1, 1, 1, 2, 3, 4, 4, 3, 2, 1, 1, 1],
     [1, 1, 2, 3, 3, 3, 3, 2, 1, 1],
     [1, 2, 2, 2, 2, 2, 2, 1],
     [1, 1, 1, 1, 1, 1, 1, 1, 1, 1, 1, 1]]"

record Board =
  rows :: "stack list list"
  top_pile :: stack
  left_blocks :: stack
  right_blocks :: stack

text \<open>\<open>Board.__init__\<close>: one empty stack per entry of DEPTHS, three empty piles.\<close>

definition Board_init :: Board where
  "Board_init =
     \<lparr>rows = map (\<lambda>row. map (\<lambda>cell. []) row) DEPTHS,
      top_pile = [], left_blocks = [], right_blocks = []\<rparr>"

subsection \<open>Python list primitives\<close>

text \<open>\<open>xs.pop()\<close> removes and returns the last element; on an empty list it raises IndexError.\<close>

definition pop :: "'a list \<Rightarrow> error + ('a \<times> 'a list)" where
  "pop xs = (if xs = [] then Inl IndexError else Inr (last xs, butlast xs))"

text \<open>
  The position a Python index denotes in a list of length \<open>n\<close>: indices from \<open>-n\<close> to
  \<open>-1\<close> count from the end; anything else out of \<open>0..n-1\<close> raises IndexError.
\<close>

definition norm_index :: "nat \<Rightarrow> int \<Rightarrow> nat option" where
  "norm_index n i =
     (if 0 \<le> i \<and> i < int n then Some (nat i)
      else if - int n \<le> i \<and> i < 0 then Some (nat (int n + i))
      else None)"

definition getitem :: "'a list \<Rightarrow> int \<Rightarrow> error + 'a" where
  "getitem xs i =
     (case norm_index (length xs) i of None \<Rightarrow> Inl IndexError | Some k \<Rightarrow> Inr (xs ! k))"

subsection \<open>fill\<close>

text \<open>
  The shuffle of \<open>fill\<close>. \<open>random.random()\<close> lies outside the program; the model takes
  the stream of draws as a function \<open>rnd\<close> of the loop index, and
  \<open>int(random.random() * m)\<close> as \<open>rnd i mod m\<close>, which ranges over exactly the values
  \<open>0..m-1\<close> that expression can take. The tuple assignment reads both old elements
  before it writes.
\<close>

definition swap_items :: "nat \<Rightarrow> nat \<Rightarrow> 'a list \<Rightarrow> 'a list" where
  "swap_items i ix pieces = (pieces[i := pieces ! ix])[ix := pieces ! i]"

definition shuffle :: "(nat \<Rightarrow> nat) \<Rightarrow> 'a list \<Rightarrow> 'a list" where
  "shuffle rnd pieces =
     fold (\<lambda>i ps. swap_items i (i + rnd i mod (length ps - i)) ps) [0..<length pieces] pieces"

text \<open>\<open>while depth: stack.append(pieces.pop()); depth -= 1\<close>\<close>

fun fill_stack :: "nat \<Rightarrow> stack \<Rightarrow> piece list \<Rightarrow> error + (stack \<times> piece list)" where
  "fill_stack 0 stack pieces = Inr (stack, pieces)"
| "fill_stack (Suc d) stack pieces =
     (case pop pieces of
        Inl e \<Rightarrow> Inl e
      | Inr (p, pieces') \<Rightarrow> fill_stack d (stack @ [p]) pieces')"

text \<open>
  The inner loop over the cells of one row, with the row of DEPTHS beside it:
  \<open>DEPTHS[rix][cix]\<close> raises IndexError when the depth table has no entry for a cell.
\<close>

fun fill_row :: "stack list \<Rightarrow> nat list \<Rightarrow> piece list \<Rightarrow> error + (stack list \<times> piece list)" where
  "fill_row [] ds pieces = Inr ([], pieces)"
| "fill_row (stack # row) [] pieces = Inl IndexError"
| "fill_row (stack # row) (d # ds) pieces =
     (case fill_stack d stack pieces of
        Inl e \<Rightarrow> Inl e
      | Inr (stack', pieces') \<Rightarrow>
          (case fill_row row ds pieces' of
             Inl e \<Rightarrow> Inl e
           | Inr (row', pieces'') \<Rightarrow> Inr (stack' # row', pieces'')))"

fun fill_rows ::
  "stack list list \<Rightarrow> nat list list \<Rightarrow> piece list \<Rightarrow> error + (stack list list \<times> piece list)" where
  "fill_rows [] dss pieces = Inr ([], pieces)"
| "fill_rows (row # rws) dss pieces =
     (case fill_row row (case dss of [] \<Rightarrow> [] | ds # _ \<Rightarrow> ds) pieces of
        Inl e \<Rightarrow> Inl e
      | Inr (row', pieces') \<Rightarrow>
          (case fill_rows rws (tl dss) pieces' of
             Inl e \<Rightarrow> Inl e
           | Inr (rws', pieces'') \<Rightarrow> Inr (row' # rws', pieces'')))"

definition fill :: "(nat \<Rightarrow> nat) \<Rightarrow> Board \<Rightarrow> error + Board" where
  "fill rnd b =
     (let pieces = shuffle rnd (concat (map (replicate 4) PIECES)) in
      case fill_rows (rows b) DEPTHS pieces of
        Inl e \<Rightarrow> Inl e
      | Inr (rows', pieces1) \<Rightarrow>
          (case pop pieces1 of
             Inl e \<Rightarrow> Inl e
           | Inr (p, pieces2) \<Rightarrow>
               (case pop pieces2 of
                  Inl e \<Rightarrow> Inl e
                | Inr (q, pieces3) \<Rightarrow>
                    Inr \<lparr>rows = rows',
                         top_pile = top_pile b @ [p],
                         left_blocks = left_blocks b @ [q],
                         right_blocks = right_blocks b @ pieces3\<rparr>)))"

subsection \<open>is\_empty and is\_movable\<close>

definition is_empty :: "Board \<Rightarrow> bool" where
  "is_empty b =
     (if top_pile b \<noteq> [] then False
      else if left_blocks b \<noteq> [] then False
      else if right_blocks b \<noteq> [] then False
      else list_all (\<lambda>row. list_all (\<lambda>stack. stack = []) row) (rows b))"

definition is_movable :: "Board \<Rightarrow> int \<Rightarrow> int \<Rightarrow> bool \<Rightarrow> error + bool" where
  "is_movable b r c is_left_to_right =
     (case getitem (rows b) r of
        Inl e \<Rightarrow> Inl e
      | Inr row \<Rightarrow>
          (case getitem row c of
             Inl e \<Rightarrow> Inl e
           | Inr stack \<Rightarrow>
               Inr (if stack = [] then False
                    else if length stack = 4 then top_pile b = []
                    else if length stack = 1 then
                      (if 3 \<le> r \<and> r \<le> 4 then
                         (if is_left_to_right then left_blocks b = [] else right_blocks b = [])
                       else True)
                    else True)))"

text \<open>Piece counts: all pieces of the board, grid stacks first, then the three piles.\<close>

definition grid_pieces :: "Board \<Rightarrow> piece list" where
  "grid_pieces b = concat (concat (rows b))"

definition all_pieces :: "Board \<Rightarrow> piece list" where
  "all_pieces b = grid_pieces b @ top_pile b @ left_blocks b @ right_blocks b"

definition total_pieces :: "Board \<Rightarrow> nat" where
  "total_pieces b = length (all_pieces b)"

definition symbol_count :: "Board \<Rightarrow> piece \<Rightarrow> nat" where
  "symbol_count b s = count_list (all_pieces b) s"

definition stack_depths :: "Board \<Rightarrow> nat list list" where
  "stack_depths b = map (map length) (rows b)"


subsection \<open>find\_movable\_pieces\<close>

text \<open>
  The sort keys. Python 2 orders None before every number and every number before every
  string; strings and tuples compare lexicographically. The keys below map a coordinate
  into a linear order with exactly that ordering.
\<close>

fun row_key :: "pyrow \<Rightarrow> nat \<times> int \<times> string" where
  "row_key (RowInt i) = (0, i, [])"
| "row_key (RowStr s) = (1, 0, s)"

fun col_key :: "int option \<Rightarrow> nat \<times> int" where
  "col_key None = (0, 0)"
| "col_key (Some c) = (1, c)"

definition piece_key :: "MovablePiece \<Rightarrow> (nat \<times> int \<times> string) \<times> (nat \<times> int)" where
  "piece_key x = (row_key (row_ix x), col_key (col_ix x))"

definition move_key ::
  "move \<Rightarrow> ((nat \<times> int \<times> string) \<times> (nat \<times> int)) \<times> ((nat \<times> int \<times> string) \<times> (nat \<times> int))" where
  "move_key x = (piece_key (fst x), piece_key (snd x))"

text \<open>
  The left-to-right scan of one row (the first \<open>while\<close> loop). \<open>movable_pieces\<close> is
  the set built so far, kept as the list of the elements added.
\<close>

function scan_left_to_right ::
  "Board \<Rightarrow> nat \<Rightarrow> stack list \<Rightarrow> nat \<Rightarrow> nat \<Rightarrow> MovablePiece list \<Rightarrow> error + MovablePiece list" where
  "scan_left_to_right b rix row cix last_depth movable_pieces =
     (if cix < length row then
        (case getitem row (int cix) of
           Inl e \<Rightarrow> Inl e
         | Inr stack \<Rightarrow>
             (case is_movable b (int rix) (int cix) True of
                Inl e \<Rightarrow> Inl e
              | Inr movable \<Rightarrow>
                  if movable \<and> length stack > last_depth then
                    scan_left_to_right b rix row (cix + 1) (length stack)
                      (movable_pieces @
                        [MovablePiece (RowInt (int rix)) (Some (int cix)) (last stack) (length stack)])
                  else if length stack < last_depth then Inr movable_pieces
                  else scan_left_to_right b rix row (cix + 1) last_depth movable_pieces))
      else Inr movable_pieces)"
  by pat_completeness auto
termination
  by (relation "measure (\<lambda>(b, rix, row, cix, last_depth, movable_pieces). length row - cix)") auto

declare scan_left_to_right.simps [simp del]

text \<open>The right-to-left scan (the second \<open>while\<close> loop); \<open>cix\<close> runs down to \<open>-1\<close>.\<close>

function scan_right_to_left ::
  "Board \<Rightarrow> nat \<Rightarrow> stack list \<Rightarrow> int \<Rightarrow> nat \<Rightarrow> MovablePiece list \<Rightarrow> error + MovablePiece list" where
  "scan_right_to_left b rix row cix last_depth movable_pieces =
     (if cix \<ge> 0 then
        (case getitem row cix of
           Inl e \<Rightarrow> Inl e
         | Inr stack \<Rightarrow>
             (case is_movable b (int rix) cix False of
                Inl e \<Rightarrow> Inl e
              | Inr movable \<Rightarrow>
                  if movable \<and> length stack > last_depth then
                    scan_right_to_left b rix row (cix - 1) (length stack)
                      (movable_pieces @
                        [MovablePiece (RowInt (int rix)) (Some cix) (last stack) (length stack)])
                  else if length stack < last_depth then Inr movable_pieces
                  else scan_right_to_left b rix row (cix - 1) last_depth movable_pieces))
      else Inr movable_pieces)"
  by pat_completeness auto
termination
  by (relation "measure (\<lambda>(b, rix, row, cix, last_depth, movable_pieces). nat (cix + 1))") auto

declare scan_right_to_left.simps [simp del]

text \<open>The loop over \<open>range(len(self.rows))\<close>.\<close>

fun scan_rows :: "Board \<Rightarrow> nat list \<Rightarrow> MovablePiece list \<Rightarrow> error + MovablePiece list" where
  "scan_rows b [] movable_pieces = Inr movable_pieces"
| "scan_rows b (rix # rixs) movable_pieces =
     (case getitem (rows b) (int rix) of
        Inl e \<Rightarrow> Inl e
      | Inr row \<Rightarrow>
          (case scan_left_to_right b rix row 0 0 movable_pieces of
             Inl e \<Rightarrow> Inl e
           | Inr mps1 \<Rightarrow>
               (case scan_right_to_left b rix row (int (length row) - 1) 0 mps1 of
                  Inl e \<Rightarrow> Inl e
                | Inr mps2 \<Rightarrow> scan_rows b rixs mps2)))"

definition add_piles :: "Board \<Rightarrow> MovablePiece list \<Rightarrow> MovablePiece list" where
  "add_piles b movable_pieces =
     movable_pieces
     @ (if top_pile b \<noteq> [] then [MovablePiece TOP None (last (top_pile b)) 1] else [])
     @ (if left_blocks b \<noteq> [] then [MovablePiece LEFT None (last (left_blocks b)) 1] else [])
     @ (if right_blocks b \<noteq> [] then [MovablePiece RIGHT None (last (right_blocks b)) 1] else [])"

text \<open>
  The set is turned into a list by \<open>sorted\<close> with the coordinate key: duplicates are
  dropped (\<open>remdups\<close>) and the elements sorted by key. Python leaves the order of
  elements with equal keys to the set's iteration order; the model keeps them in the
  order they were added.
\<close>

definition find_movable_pieces :: "Board \<Rightarrow> error + MovablePiece list" where
  "find_movable_pieces b =
     (case scan_rows b [0..<length (rows b)] [] of
        Inl e \<Rightarrow> Inl e
      | Inr movable_pieces \<Rightarrow> Inr (sort_key piece_key (remdups (add_piles b movable_pieces))))"

subsection \<open>find\_moves\<close>

text \<open>
  \<open>movables_by_piece.setdefault(piece, []).append(movable_piece)\<close> on a dictionary kept
  as an association list in insertion order.
\<close>

fun setdefault_append ::
  "piece \<Rightarrow> MovablePiece \<Rightarrow> (piece \<times> MovablePiece list) list \<Rightarrow> (piece \<times> MovablePiece list) list" where
  "setdefault_append k v [] = [(k, [v])]"
| "setdefault_append k v ((k', vs) # rest) =
     (if k = k' then (k', vs @ [v]) # rest else (k', vs) # setdefault_append k v rest)"

definition movables_by_piece :: "MovablePiece list \<Rightarrow> (piece \<times> MovablePiece list) list" where
  "movables_by_piece movable_pieces =
     fold (\<lambda>movable_piece d. setdefault_append (piece movable_piece) movable_piece d)
       movable_pieces []"

text \<open>The two nested \<open>for\<close> loops over \<open>i\<close> and \<open>j\<close>.\<close>

definition pairs :: "'a list \<Rightarrow> ('a \<times> 'a) list" where
  "pairs pieces =
     concat (map (\<lambda>i. map (\<lambda>j. (pieces ! i, pieces ! j)) [i + 1..<length pieces])
       [0..<length pieces - 1])"

text \<open>
  The set \<open>moves\<close>, as the list of the pairs added to it, and the sorted list made of
  the set: duplicates dropped, sorted by the coordinate key (pairs with equal keys stay
  in the order they were added).
\<close>

definition candidate_moves :: "MovablePiece list \<Rightarrow> move list" where
  "candidate_moves movable_pieces =
     concat (map (\<lambda>(s, pieces). pairs pieces) (movables_by_piece movable_pieces))"

definition find_moves :: "MovablePiece list \<Rightarrow> move list" where
  "find_moves movable_pieces = sort_key move_key (remdups (candidate_moves movable_pieces))"

subsection \<open>remove\_piece, replace\_piece, do\_move, undo\_move\<close>

text \<open>
  The grid branch indexes \<open>self.rows\<close> with the MovablePiece's own fields: a string
  other than the three sentinels, or a column None, raises TypeError; an index out of
  range raises IndexError.
\<close>

definition grid_cell :: "Board \<Rightarrow> MovablePiece \<Rightarrow> error + (nat \<times> nat)" where
  "grid_cell b movable_piece =
     (case row_ix movable_piece of
        RowStr s \<Rightarrow> Inl TypeError
      | RowInt r \<Rightarrow>
          (case norm_index (length (rows b)) r of
             None \<Rightarrow> Inl IndexError
           | Some i \<Rightarrow>
               (case col_ix movable_piece of
                  None \<Rightarrow> Inl TypeError
                | Some c \<Rightarrow>
                    (case norm_index (length (rows b ! i)) c of
                       None \<Rightarrow> Inl IndexError
                     | Some j \<Rightarrow> Inr (i, j)))))"

definition remove_piece :: "Board \<Rightarrow> MovablePiece \<Rightarrow> error + Board" where
  "remove_piece b movable_piece =
     (if row_ix movable_piece = TOP then
        (case pop (top_pile b) of
           Inl e \<Rightarrow> Inl e | Inr (p, rest) \<Rightarrow> Inr (b\<lparr>top_pile := rest\<rparr>))
      else if row_ix movable_piece = LEFT then
        (case pop (left_blocks b) of
           Inl e \<Rightarrow> Inl e | Inr (p, rest) \<Rightarrow> Inr (b\<lparr>left_blocks := rest\<rparr>))
      else if row_ix movable_piece = RIGHT then
        (case pop (right_blocks b) of
           Inl e \<Rightarrow> Inl e | Inr (p, rest) \<Rightarrow> Inr (b\<lparr>right_blocks := rest\<rparr>))
      else
        (case grid_cell b movable_piece of
           Inl e \<Rightarrow> Inl e
         | Inr (i, j) \<Rightarrow>
             (case pop (rows b ! i ! j) of
                Inl e \<Rightarrow> Inl e
              | Inr (p, rest) \<Rightarrow> Inr (b\<lparr>rows := (rows b)[i := (rows b ! i)[j := rest]]\<rparr>))))"

definition replace_piece :: "Board \<Rightarrow> MovablePiece \<Rightarrow> error + Board" where
  "replace_piece b movable_piece =
     (if row_ix movable_piece = TOP then
        Inr (b\<lparr>top_pile := top_pile b @ [piece movable_piece]\<rparr>)
      else if row_ix movable_piece = LEFT then
        Inr (b\<lparr>left_blocks := left_blocks b @ [piece movable_piece]\<rparr>)
      else if row_ix movable_piece = RIGHT then
        Inr (b\<lparr>right_blocks := right_blocks b @ [piece movable_piece]\<rparr>)
      else
        (case grid_cell b movable_piece of
           Inl e \<Rightarrow> Inl e
         | Inr (i, j) \<Rightarrow>
             Inr (b\<lparr>rows := (rows b)[i := (rows b ! i)[j := rows b ! i ! j @ [piece movable_piece]]]\<rparr>)))"

definition do_move :: "Board \<Rightarrow> move \<Rightarrow> error + Board" where
  "do_move b mv =
     (case remove_piece b (fst mv) of
        Inl e \<Rightarrow> Inl e
      | Inr b1 \<Rightarrow> remove_piece b1 (snd mv))"

definition undo_move :: "Board \<Rightarrow> move \<Rightarrow> error + Board" where
  "undo_move b mv =
     (case replace_piece b (fst mv) of
        Inl e \<Rightarrow> Inl e
      | Inr b1 \<Rightarrow> replace_piece b1 (snd mv))"

subsection \<open>get\_state\<close>

text \<open>\<open>sep.join(xs)\<close>\<close>

fun join :: "string \<Rightarrow> string list \<Rightarrow> string" where
  "join sep [] = []"
| "join sep [x] = x"
| "join sep (x # y # ys) = x @ sep @ join sep (y # ys)"

text \<open>The bytes fed to the digest by the three \<open>update\<close> calls, in order.\<close>

definition state_string :: "Board \<Rightarrow> string" where
  "state_string b =
     join ''|'' (map (\<lambda>stack. str_nat (length stack)) (concat (rows b)))
     @ ''|''
     @ join ''|'' [str_nat (length (top_pile b)), str_nat (length (left_blocks b)),
                   str_nat (length (right_blocks b))]"

text \<open>
  \<open>hashlib.md5\<close> is a library function outside the repository: \<open>get_state\<close> takes it
  as the parameter \<open>md5\<close>, a function from the bytes fed to it to the 16-byte digest.
\<close>

type_synonym digest = "128 word"

definition get_state :: "(string \<Rightarrow> digest) \<Rightarrow> Board \<Rightarrow> digest" where
  "get_state md5 b = md5 (state_string b)"


subsection \<open>BacktrackingSearcher\<close>

text \<open>
  The searcher's fields that the search reads or that hold its results. The two timing
  fields (\<open>num_moves\<close>, \<open>last_time\<close>) depend on the clock and only feed the printed
  statistics; they are left out, as is \<open>dead_ends\<close>, which no code writes. The trail
  holds the pairs \<open>(ix, len(moves))\<close>.
\<close>

record Searcher =
  board :: Board
  moves :: "move list"
  trail :: "(nat \<times> nat) list"
  solutions :: "move list set"
  stats_calls :: nat
  seen_states :: "digest set"

text \<open>
  \<open>print_stats\<close> prints; what remains of it in the model is the counter and the two
  places where it can raise, in the order the code reaches them: \<open>Board.__str__\<close>
  reads \<open>row_strs[0]\<close> to \<open>row_strs[7]\<close>, an IndexError on a board of fewer than
  eight rows, and the progress loop divides by the second component of every trail
  entry, a ZeroDivisionError when one is zero.
\<close>

definition print_stats :: "Searcher \<Rightarrow> error + Searcher" where
  "print_stats s =
     (let s1 = s\<lparr>stats_calls := stats_calls s + 1\<rparr> in
      if stats_calls s1 mod 100 \<noteq> 0 \<and> length (rows (board s1)) < 8 then Inl IndexError
      else if list_ex (\<lambda>(num, den). den = 0) (trail s1) then Inl ZeroDivisionError
      else Inr s1)"

text \<open>
  The recursion of \<open>backtracking_search\<close> and its \<open>for\<close> loop over the moves. The
  first argument after \<open>md5\<close> is fuel, one unit per nested call: None means the fuel
  ran out, \<open>Some (Inl e)\<close> that the code raised, \<open>Some (Inr s)\<close> that the call returned
  with the searcher in state \<open>s\<close>.
\<close>

function backtracking_search ::
    "(string \<Rightarrow> digest) \<Rightarrow> nat \<Rightarrow> Searcher \<Rightarrow> (error + Searcher) option"
  and search_moves ::
    "(string \<Rightarrow> digest) \<Rightarrow> nat \<Rightarrow> nat \<Rightarrow> nat \<Rightarrow> move list \<Rightarrow> Searcher \<Rightarrow> (error + Searcher) option"
  where
  "backtracking_search md5 0 s = None"
| "backtracking_search md5 (Suc fuel) s =
     (if is_empty (board s) then
        Some (print_stats (s\<lparr>solutions := insert (moves s) (solutions s)\<rparr>))
      else if get_state md5 (board s) \<in> seen_states s then Some (Inr s)
      else
        (let s1 = s\<lparr>seen_states := insert (get_state md5 (board s)) (seen_states s)\<rparr> in
         case find_movable_pieces (board s1) of
           Inl e \<Rightarrow> Some (Inl e)
         | Inr movable_pieces \<Rightarrow>
             if find_moves movable_pieces = [] then Some (print_stats s1)
             else search_moves md5 fuel 0 (length (find_moves movable_pieces))
                    (find_moves movable_pieces) s1))"
| "search_moves md5 fuel ix n [] s = Some (Inr s)"
| "search_moves md5 fuel ix n (mv # rest) s =
     (let s1 = s\<lparr>trail := trail s @ [(ix, n)], moves := moves s @ [mv]\<rparr> in
      case do_move (board s1) mv of
        Inl e \<Rightarrow> Some (Inl e)
      | Inr b1 \<Rightarrow>
          (case backtracking_search md5 fuel (s1\<lparr>board := b1\<rparr>) of
             None \<Rightarrow> None
           | Some (Inl e) \<Rightarrow> Some (Inl e)
           | Some (Inr s2) \<Rightarrow>
               (case undo_move (board s2) mv of
                  Inl e \<Rightarrow> Some (Inl e)
                | Inr b2 \<Rightarrow>
                    (case pop (moves s2) of
                       Inl e \<Rightarrow> Some (Inl e)
                     | Inr (m, moves') \<Rightarrow>
                         (case pop (trail s2) of
                            Inl e \<Rightarrow> Some (Inl e)
                          | Inr (t, trail') \<Rightarrow>
                              search_moves md5 fuel (ix + 1) n rest
                                (s2\<lparr>board := b2, moves := moves', trail := trail'\<rparr>))))))"
  by pat_completeness auto
termination
  by (relation "inv_image (less_than <*lex*> less_than)
        (\<lambda>x. case x of
           Inl (md5, fuel, s) \<Rightarrow> (fuel, 0)
         | Inr (md5, fuel, ix, n, mvs, s) \<Rightarrow> (fuel, Suc (length mvs)))") auto

text \<open>\<open>BoardSearcher.__init__\<close>\<close>

definition Searcher_init :: "Board \<Rightarrow> Searcher" where
  "Searcher_init b =
     \<lparr>board = b, moves = [], trail = [], solutions = {}, stats_calls = 0, seen_states = {}\<rparr>"

text \<open>The boards a game can reach: a freshly filled board, and every board a move offered
  by \<open>find_moves\<close> over \<open>find_movable_pieces\<close> leads to.\<close>

inductive reachable :: "Board \<Rightarrow> bool" where
  fresh: "fill rnd Board_init = Inr b \<Longrightarrow> reachable b"
| step: "reachable b \<Longrightarrow> find_movable_pieces b = Inr mps \<Longrightarrow> mv \<in> set (find_moves mps) \<Longrightarrow>
         do_move b mv = Inr b' \<Longrightarrow> reachable b'"


subsection \<open>Places: the stack a MovablePiece refers to\<close>

text \<open>
  \<open>remove_piece\<close> and \<open>replace_piece\<close> resolve a MovablePiece to one of the three
  piles or, through Python indexing of \<open>self.rows\<close>, to a grid stack. \<open>place_of\<close>
  names the stack they reach, \<open>stack_at\<close> reads it, and \<open>upd_at\<close> rewrites it.
\<close>

datatype place = Cell nat nat | TopPile | LeftPile | RightPile

definition place_of :: "Board \<Rightarrow> MovablePiece \<Rightarrow> error + place" where
  "place_of b movable_piece =
     (if row_ix movable_piece = TOP then Inr TopPile
      else if row_ix movable_piece = LEFT then Inr LeftPile
      else if row_ix movable_piece = RIGHT then Inr RightPile
      else (case grid_cell b movable_piece of Inl e \<Rightarrow> Inl e | Inr (i, j) \<Rightarrow> Inr (Cell i j)))"

fun stack_at :: "Board \<Rightarrow> place \<Rightarrow> stack" where
  "stack_at b (Cell i j) = rows b ! i ! j"
| "stack_at b TopPile = top_pile b"
| "stack_at b LeftPile = left_blocks b"
| "stack_at b RightPile = right_blocks b"

fun valid_place :: "Board \<Rightarrow> place \<Rightarrow> bool" where
  "valid_place b (Cell i j) = (i < length (rows b) \<and> j < length (rows b ! i))"
| "valid_place b TopPile = True"
| "valid_place b LeftPile = True"
| "valid_place b RightPile = True"

fun upd_at :: "Board \<Rightarrow> place \<Rightarrow> (stack \<Rightarrow> stack) \<Rightarrow> Board" where
  "upd_at b (Cell i j) f = b\<lparr>rows := (rows b)[i := (rows b ! i)[j := f (rows b ! i ! j)]]\<rparr>"
| "upd_at b TopPile f = b\<lparr>top_pile := f (top_pile b)\<rparr>"
| "upd_at b LeftPile f = b\<lparr>left_blocks := f (left_blocks b)\<rparr>"
| "upd_at b RightPile f = b\<lparr>right_blocks := f (right_blocks b)\<rparr>"

text \<open>A MovablePiece whose piece is the exposed top of the stack or pile it refers to.\<close>

definition exposed_top :: "Board \<Rightarrow> MovablePiece \<Rightarrow> bool" where
  "exposed_top b movable_piece =
     (case place_of b movable_piece of
        Inl e \<Rightarrow> False
      | Inr pl \<Rightarrow> stack_at b pl \<noteq> [] \<and> last (stack_at b pl) = piece movable_piece)"

text \<open>
  The MovablePiece that \<open>find_movable_pieces\<close> builds for a place: non-negative
  indices (or the pile's sentinel and None), the last piece of the stack, and the
  stack's length (1 for a pile).
\<close>

fun piece_at :: "Board \<Rightarrow> place \<Rightarrow> MovablePiece" where
  "piece_at b (Cell i j) =
     MovablePiece (RowInt (int i)) (Some (int j)) (last (rows b ! i ! j)) (length (rows b ! i ! j))"
| "piece_at b TopPile = MovablePiece TOP None (last (top_pile b)) 1"
| "piece_at b LeftPile = MovablePiece LEFT None (last (left_blocks b)) 1"
| "piece_at b RightPile = MovablePiece RIGHT None (last (right_blocks b)) 1"

definition canonical :: "Board \<Rightarrow> MovablePiece \<Rightarrow> bool" where
  "canonical b movable_piece =
     (case place_of b movable_piece of
        Inl e \<Rightarrow> False
      | Inr pl \<Rightarrow> stack_at b pl \<noteq> [] \<and> movable_piece = piece_at b pl)"

text \<open>A freshly filled board, for the concrete checks below: the result of \<open>fill\<close> when
  every draw is 0 (\<open>random.random()\<close> returning 0.0 each time), which leaves the pieces in
  the order of PIECES.\<close>

definition example_board :: Board where
  "example_board =
     \<lparr>rows =
       [[[''Z''], [''Z''], [''Z''], [''Z''], [''Y''], [''Y''], [''Y''], [''Y''], [''X''], [''X''], [''X''], [''X'']],
        [[''W''], [''W'', ''W''], [''W'', ''V''], [''V'', ''V''], [''V'', ''U''], [''U'', ''U''], [''U'', ''T''], [''T'']],
        [[''T''], [''T''], [''S'', ''S''], [''S'', ''S'', ''R''], [''R'', ''R'', ''R''], [''Q'', ''Q'', ''Q''], [''Q'', ''P'', ''P''], [''P'', ''P''], [''O''], [''O'']],
        [[''O''], [''O''], [''N''], [''N'', ''N''], [''N'', ''M'', ''M''], [''M'', ''M'', ''L'', ''L''], [''L'', ''L'', ''K'', ''K''], [''K'', ''K'', ''J''], [''J'', ''J''], [''J''], [''I''], [''I'']],
        [[''I''], [''I''], [''H''], [''H'', ''H''], [''H'', ''G'', ''G''], [''G'', ''G'', ''F'', ''F''], [''F'', ''F'', ''E'', ''E''], [''E'', ''E'', ''D''], [''D'', ''D''], [''D''], [''C''], [''C'']],
        [[''C''], [''C''], [''B'', ''B''], [''B'', ''B'', ''A''], [''A'', ''A'', ''A''], [''9'', ''9'', ''9''], [''9'', ''8'', ''8''], [''8'', ''8''], [''7''], [''7'']],
        [[''7''], [''7'', ''6''], [''6'', ''6''], [''6'', ''5''], [''5'', ''5''], [''5'', ''4''], [''4'', ''4''], [''4'']],
        [[''3''], [''3''], [''3''], [''3''], [''2''], [''2''], [''2''], [''2''], [''1''], [''1''], [''1''], [''1'']]],
      top_pile = [''0''], left_blocks = [''0''], right_blocks = [''0'', ''0'']\<rparr>"

text \<open>The movable pieces of the example board, as \<open>find_movable_pieces\<close> returns them.\<close>

definition example_movable_pieces :: "MovablePiece list" where
  "example_movable_pieces =
     [MovablePiece (RowInt 0) (Some 0) ''Z'' 1,
      MovablePiece (RowInt 0) (Some 11) ''X'' 1,
      MovablePiece (RowInt 1) (Some 0) ''W'' 1,
      MovablePiece (RowInt 1) (Some 1) ''W'' 2,
      MovablePiece (RowInt 1) (Some 6) ''T'' 2,
      MovablePiece (RowInt 1) (Some 7) ''T'' 1,
      MovablePiece (RowInt 2) (Some 0) ''T'' 1,
      MovablePiece (RowInt 2) (Some 2) ''S'' 2,
      MovablePiece (RowInt 2) (Some 3) ''R'' 3,
      MovablePiece (RowInt 2) (Some 6) ''P'' 3,
      MovablePiece (RowInt 2) (Some 7) ''P'' 2,
      MovablePiece (RowInt 2) (Some 9) ''O'' 1,
      MovablePiece (RowInt 3) (Some 3) ''N'' 2,
      MovablePiece (RowInt 3) (Some 4) ''M'' 3,
      MovablePiece (RowInt 3) (Some 7) ''J'' 3,
      MovablePiece (RowInt 3) (Some 8) ''J'' 2,
      MovablePiece (RowInt 4) (Some 3) ''H'' 2,
      MovablePiece (RowInt 4) (Some 4) ''G'' 3,
      MovablePiece (RowInt 4) (Some 7) ''D'' 3,
      MovablePiece (RowInt 4) (Some 8) ''D'' 2,
      MovablePiece (RowInt 5) (Some 0) ''C'' 1,
      MovablePiece (RowInt 5) (Some 2) ''B'' 2,
      MovablePiece (RowInt 5) (Some 3) ''A'' 3,
      MovablePiece (RowInt 5) (Some 6) ''8'' 3,
      MovablePiece (RowInt 5) (Some 7) ''8'' 2,
      MovablePiece (RowInt 5) (Some 9) ''7'' 1,
      MovablePiece (RowInt 6) (Some 0) ''7'' 1,
      MovablePiece (RowInt 6) (Some 1) ''6'' 2,
      MovablePiece (RowInt 6) (Some 6) ''4'' 2,
      MovablePiece (RowInt 6) (Some 7) ''4'' 1,
      MovablePiece (RowInt 7) (Some 0) ''3'' 1,
      MovablePiece (RowInt 7) (Some 11) ''1'' 1,
      MovablePiece (RowStr ''L'') None ''0'' 1,
      MovablePiece (RowStr ''R'') None ''0'' 1,
      MovablePiece (RowStr ''T'') None ''0'' 1]"

text \<open>
  A move whose two MovablePieces each name the exposed top of a stack or pile, the two
  being different stacks.
\<close>

definition legal :: "Board \<Rightarrow> move \<Rightarrow> bool" where
  "legal b mv =
     (exposed_top b (fst mv) \<and> exposed_top b (snd mv) \<and>
      place_of b (fst mv) \<noteq> place_of b (snd mv))"

text \<open>
  Two hand-built boards of the program's layout: one with a single pair of pieces in the
  first two cells of row 0, and a family with \<open>n\<close> pieces stacked on cell (0, 0).
\<close>

definition pair_board :: Board where
  "pair_board =
     Board_init\<lparr>rows := (rows Board_init)[0 := (rows Board_init ! 0)[0 := [''A''], 1 := [''A'']]]\<rparr>"


section \<open>Verification\<close>

subsection \<open>The shuffle and the distribution of fill\<close>

lemma length_swap_items [simp]: "length (swap_items i j ps) = length ps"
  by (simp add: swap_items_def)

lemma mset_swap_items: "i < length ps \<Longrightarrow> j < length ps \<Longrightarrow> mset (swap_items i j ps) = mset ps"
  unfolding swap_items_def using mset_swap[of j ps i] by simp

lemma shuffle_fold_aux:
  "set is \<subseteq> {0..<length ps} \<Longrightarrow>
   length (fold (\<lambda>i ps. swap_items i (i + rnd i mod (length ps - i)) ps) is ps) = length ps \<and>
   mset (fold (\<lambda>i ps. swap_items i (i + rnd i mod (length ps - i)) ps) is ps) = mset ps"
proof (induction "is" arbitrary: ps)
  case Nil
  then show ?case by simp
next
  case (Cons i "is")
  let ?ps = "swap_items i (i + rnd i mod (length ps - i)) ps"
  from Cons.prems have i: "i < length ps" by simp
  then have "rnd i mod (length ps - i) < length ps - i" by simp
  then have j: "i + rnd i mod (length ps - i) < length ps" by linarith
  have m: "mset ?ps = mset ps" using i j by (rule mset_swap_items)
  have "set is \<subseteq> {0..<length ?ps}" using Cons.prems by simp
  from Cons.IH[OF this] m show ?case by simp
qed

lemma length_shuffle [simp]: "length (shuffle rnd ps) = length ps"
  unfolding shuffle_def using shuffle_fold_aux[of "[0..<length ps]" ps rnd] by simp

lemma mset_shuffle [simp]: "mset (shuffle rnd ps) = mset ps"
  unfolding shuffle_def using shuffle_fold_aux[of "[0..<length ps]" ps rnd] by simp

lemma fill_stack_pops:
  "d \<le> length ps \<Longrightarrow>
   \<exists>st'. fill_stack d st ps = Inr (st', take (length ps - d) ps) \<and>
         length st' = length st + d \<and>
         mset st' = mset st + mset (drop (length ps - d) ps)"
proof (induction d arbitrary: st ps)
  case 0
  then show ?case by simp
next
  case (Suc d)
  then have ne: "ps \<noteq> []" by auto
  then have ps: "ps = butlast ps @ [last ps]" by simp
  have d: "d \<le> length (butlast ps)" using Suc.prems by simp
  from Suc.IH[OF d, of "st @ [last ps]"] obtain st' where
    st': "fill_stack d (st @ [last ps]) (butlast ps) = Inr (st', take (length (butlast ps) - d) (butlast ps))"
      "length st' = length (st @ [last ps]) + d"
      "mset st' = mset (st @ [last ps]) + mset (drop (length (butlast ps) - d) (butlast ps))"
    by blast
  have t: "take (length (butlast ps) - d) (butlast ps) = take (length ps - Suc d) ps"
    using ne by (simp add: take_butlast)
  have "drop (length ps - Suc d) ps = drop (length ps - Suc d) (butlast ps @ [last ps])"
    using ps by simp
  also have "\<dots> = drop (length ps - Suc d) (butlast ps) @ [last ps]"
    using Suc.prems by simp
  finally have dr: "mset (drop (length ps - Suc d) ps) = mset (drop (length (butlast ps) - d) (butlast ps)) + {#last ps#}"
    by simp
  show ?case using st' ne t dr by (simp add: pop_def)
qed

lemma fill_row_empty:
  "sum_list ds \<le> length ps \<Longrightarrow>
   \<exists>row'. fill_row (map (\<lambda>cell. []) ds) ds ps = Inr (row', take (length ps - sum_list ds) ps) \<and>
          map length row' = ds \<and>
          mset (concat row') = mset (drop (length ps - sum_list ds) ps)"
proof (induction ds arbitrary: ps)
  case Nil
  then show ?case by simp
next
  case (Cons d ds)
  then have d: "d \<le> length ps" by simp
  from fill_stack_pops[OF d, of "[]"] obtain st' where
    st': "fill_stack d [] ps = Inr (st', take (length ps - d) ps)" "length st' = d"
      "mset st' = mset (drop (length ps - d) ps)" by auto
  let ?ps = "take (length ps - d) ps"
  have l: "sum_list ds \<le> length ?ps" using Cons.prems by simp
  from Cons.IH[OF l] obtain row' where
    row': "fill_row (map (\<lambda>cell. []) ds) ds ?ps = Inr (row', take (length ?ps - sum_list ds) ?ps)"
     "map length row' = ds" "mset (concat row') = mset (drop (length ?ps - sum_list ds) ?ps)"
    by blast
  have "length ?ps - sum_list ds = length ps - sum_list (d # ds)" by simp
  moreover have "min (length ps - sum_list (d # ds)) (length ps - d) = length ps - sum_list (d # ds)"
    by simp
  ultimately have t: "take (length ?ps - sum_list ds) ?ps = take (length ps - sum_list (d # ds)) ps"
    by (simp only: take_take)
  have "drop (length ps - sum_list (d # ds)) ps =
        drop (length ps - sum_list (d # ds)) (?ps @ drop (length ps - d) ps)" by simp
  also have "\<dots> = drop (length ?ps - sum_list ds) ?ps @ drop (length ps - d) ps"
    using Cons.prems by (simp del: append_take_drop_id)
  finally have m: "mset (drop (length ps - sum_list (d # ds)) ps) =
     mset (drop (length ?ps - sum_list ds) ?ps) + mset (drop (length ps - d) ps)" by simp
  show ?case using st' row' t m by simp
qed

lemma fill_rows_empty:
  "sum_list (map sum_list dss) \<le> length ps \<Longrightarrow>
   \<exists>rws'. fill_rows (map (\<lambda>row. map (\<lambda>cell. []) row) dss) dss ps =
            Inr (rws', take (length ps - sum_list (map sum_list dss)) ps) \<and>
          map (map length) rws' = dss \<and>
          mset (concat (concat rws')) = mset (drop (length ps - sum_list (map sum_list dss)) ps)"
proof (induction dss arbitrary: ps)
  case Nil
  then show ?case by simp
next
  case (Cons ds dss)
  then have d: "sum_list ds \<le> length ps" by simp
  from fill_row_empty[OF d] obtain row' where
    st': "fill_row (map (\<lambda>cell. []) ds) ds ps = Inr (row', take (length ps - sum_list ds) ps)"
      "map length row' = ds"
      "mset (concat row') = mset (drop (length ps - sum_list ds) ps)" by auto
  let ?ps = "take (length ps - sum_list ds) ps"
  let ?S = "sum_list (map sum_list dss)"
  have l: "?S \<le> length ?ps" using Cons.prems by simp
  from Cons.IH[OF l] obtain rws' where
    row': "fill_rows (map (\<lambda>row. map (\<lambda>cell. []) row) dss) dss ?ps = Inr (rws', take (length ?ps - ?S) ?ps)"
     "map (map length) rws' = dss" "mset (concat (concat rws')) = mset (drop (length ?ps - ?S) ?ps)"
    by blast
  have "length ?ps - ?S = length ps - sum_list (map sum_list (ds # dss))" by simp
  moreover have "min (length ps - sum_list (map sum_list (ds # dss))) (length ps - sum_list ds) =
      length ps - sum_list (map sum_list (ds # dss))"
    by simp
  ultimately have t: "take (length ?ps - ?S) ?ps = take (length ps - sum_list (map sum_list (ds # dss))) ps"
    by (simp only: take_take)
  have "drop (length ps - sum_list (map sum_list (ds # dss))) ps =
        drop (length ps - sum_list (map sum_list (ds # dss))) (?ps @ drop (length ps - sum_list ds) ps)" by simp
  also have "\<dots> = drop (length ?ps - ?S) ?ps @ drop (length ps - sum_list ds) ps"
    using Cons.prems by (simp del: append_take_drop_id)
  finally have m: "mset (drop (length ps - sum_list (map sum_list (ds # dss))) ps) =
     mset (drop (length ?ps - ?S) ?ps) + mset (drop (length ps - sum_list ds) ps)" by simp
  show ?case using st' row' t m by simp
qed

lemma sum_DEPTHS: "sum_list (map sum_list DEPTHS) = 140"
  by (simp add: DEPTHS_def)

lemma length_PIECES: "length PIECES = 36"
  by (simp add: PIECES_def)

lemma length_concat_replicate: "length (concat (map (replicate k) xs)) = k * length xs"
  by (induction xs) auto

lemma PIECES_chars: "PIECES = map (\<lambda>c. [c]) ''0123456789ABCDEFGHIJKLMNOPQRSTUVWXYZ''"
  by code_simp

lemma pop_take_Suc: "n < length ps \<Longrightarrow> pop (take (Suc n) ps) = Inr (ps ! n, take n ps)"
  by (simp add: pop_def take_Suc_conv_app_nth)

lemma fill_Board_init:
  "\<exists>b. fill rnd Board_init = Inr b \<and> stack_depths b = DEPTHS \<and>
       length (grid_pieces b) = 140 \<and> length (top_pile b) = 1 \<and>
       length (left_blocks b) = 1 \<and> length (right_blocks b) = 2 \<and>
       mset (all_pieces b) = mset (concat (map (replicate 4) PIECES))"
proof -
  define ps where "ps = shuffle rnd (concat (map (replicate 4) PIECES))"
  have len: "length ps = 144" by (simp add: ps_def length_concat_replicate length_PIECES)
  have ms: "mset ps = mset (concat (map (replicate 4) PIECES))" by (simp add: ps_def)
  have "sum_list (map sum_list DEPTHS) \<le> length ps" by (simp add: sum_DEPTHS len)
  from fill_rows_empty[OF this] obtain rws' where
    r: "fill_rows (rows Board_init) DEPTHS ps = Inr (rws', take 4 ps)"
       "map (map length) rws' = DEPTHS"
       "mset (concat (concat rws')) = mset (drop 4 ps)"
    by (auto simp: Board_init_def sum_DEPTHS len)
  have p1: "pop (take 4 ps) = Inr (ps ! 3, take 3 ps)"
    using pop_take_Suc[of 3 ps] len by (simp add: eval_nat_numeral)
  have p2: "pop (take 3 ps) = Inr (ps ! 2, take 2 ps)"
    using pop_take_Suc[of 2 ps] len by (simp add: eval_nat_numeral)
  let ?b = "\<lparr>rows = rws', top_pile = [ps ! 3], left_blocks = [ps ! 2], right_blocks = take 2 ps\<rparr>"
  have f: "fill rnd Board_init = Inr ?b"
    using r(1) p1 p2 by (simp add: fill_def ps_def[symmetric] Board_init_def)
  have "length (concat (concat rws')) = size (mset (drop 4 ps))"
    using r(3) by (metis size_mset)
  then have g: "length (grid_pieces ?b) = 140" by (simp add: grid_pieces_def len)
  have "take 4 ps = take 2 ps @ [ps ! 2, ps ! 3]"
    using len by (simp add: eval_nat_numeral take_Suc_conv_app_nth)
  then have "mset (take 4 ps) = mset (take 2 ps) + {#ps ! 2, ps ! 3#}" by simp
  moreover have "mset ps = mset (take 4 ps) + mset (drop 4 ps)"
    by (metis append_take_drop_id mset_append)
  ultimately have a: "mset (all_pieces ?b) = mset ps"
    using r(3) by (simp add: all_pieces_def grid_pieces_def)
  show ?thesis using f r(2) g a ms len by (simp add: stack_depths_def)
qed

lemma fold_swap_same:
  "set is \<subseteq> {0..<length ps} \<Longrightarrow>
   fold (\<lambda>i ps. swap_items i (i + (\<lambda>i. 0) i mod (length ps - i)) ps) is ps = ps"
  by (induction "is" arbitrary: ps) (simp_all add: swap_items_def)

lemma shuffle_zero: "shuffle (\<lambda>i. 0) ps = ps"
  unfolding shuffle_def using fold_swap_same[of "[0..<length ps]" ps] by simp

lemma fill_example_board: "fill (\<lambda>i. 0) Board_init = Inr example_board"
  unfolding fill_def shuffle_zero by code_simp

lemma getitem_literal:
  "0 \<le> i \<Longrightarrow> nat i < length xs \<Longrightarrow> getitem xs i = Inr (xs ! nat i)"
  by (auto simp: getitem_def norm_index_def)

text \<open>
  Claim C4, as the code has it: whatever the draws, \<open>fill\<close> on the empty board returns
  a board of 144 pieces in which every grid stack holds as many pieces as DEPTHS says,
  140 pieces in all on the grid (the entries of DEPTHS add up to 140, over 84 cells),
  one piece in \<open>top\<close>, one in \<open>left_blocks\<close> and the remaining two in \<open>right_blocks\<close>;
  and \<open>is_empty\<close> is False.
\<close>

theorem fill_distribution:
  "\<exists>b. fill rnd Board_init = Inr b \<and> total_pieces b = 144 \<and> stack_depths b = DEPTHS \<and>
       length (grid_pieces b) = 140 \<and> length (top_pile b) = 1 \<and>
       length (left_blocks b) = 1 \<and> length (right_blocks b) = 2 \<and> \<not> is_empty b"
proof -
  from fill_Board_init[of rnd] obtain b where
    b: "fill rnd Board_init = Inr b" "stack_depths b = DEPTHS" "length (grid_pieces b) = 140"
       "length (top_pile b) = 1" "length (left_blocks b) = 1" "length (right_blocks b) = 2"
    by blast
  have t: "total_pieces b = 144" using b by (simp add: total_pieces_def all_pieces_def)
  have "top_pile b \<noteq> []" using b(4) by auto
  then have e: "\<not> is_empty b" by (simp add: is_empty_def)
  show ?thesis using b t e by blast
qed

text \<open>
  Claim C4 as stated puts 96 pieces on the grid. On the board filled with every draw 0
  the grid holds 140, so the stated distribution does not hold.
\<close>

theorem fill_grid_96_counterexample:
  "\<not> (case fill (\<lambda>i. 0) Board_init of
        Inl e \<Rightarrow> False
      | Inr b \<Rightarrow> total_pieces b = 144 \<and> length (grid_pieces b) = 96 \<and>
                 length (top_pile b) = 1 \<and> length (left_blocks b) = 1 \<and> \<not> is_empty b)"
proof -
  have "length (grid_pieces example_board) = 140"
    by (simp add: example_board_def grid_pieces_def)
  then show ?thesis by (simp add: fill_example_board)
qed

subsection \<open>The exposure rule\<close>




text \<open>
  Claim C8: for a grid cell of row 3 or row 4 whose stack holds exactly one piece,
  \<open>is_movable\<close> left-to-right is False while \<open>left_blocks\<close> is non-empty, and
  \<open>is_movable\<close> right-to-left is False while \<open>right_blocks\<close> is non-empty.
\<close>

theorem is_movable_ground_middle:
  "r = 3 \<or> r = 4 \<Longrightarrow> getitem (rows b) r = Inr row \<Longrightarrow> getitem row c = Inr stack \<Longrightarrow>
   length stack = 1 \<Longrightarrow>
   (left_blocks b \<noteq> [] \<longrightarrow> is_movable b r c True = Inr False) \<and>
   (right_blocks b \<noteq> [] \<longrightarrow> is_movable b r c False = Inr False)"
  by (auto simp: is_movable_def)

theorem is_movable_ground_middle_witness:
  "((3::int) = 3 \<or> (3::int) = 4) \<and>
   getitem (rows example_board) 3 = Inr (rows example_board ! 3) \<and>
   getitem (rows example_board ! 3) 0 = Inr [''O''] \<and> length [''O''] = (1::nat) \<and>
   left_blocks example_board \<noteq> [] \<and> right_blocks example_board \<noteq> [] \<and>
   is_movable example_board 3 0 True = Inr False \<and>
   is_movable example_board 3 0 False = Inr False"
proof -
  have 0: "(3::int) = 3 \<or> (3::int) = 4" by simp
  have 1: "getitem (rows example_board) 3 = Inr (rows example_board ! 3)"
    by (simp add: getitem_literal example_board_def)
  have 2: "getitem (rows example_board ! 3) 0 = Inr [''O'']"
    by (simp add: getitem_literal example_board_def)
  have 3: "length [''O''] = (1::nat)" by simp
  have 4: "left_blocks example_board \<noteq> []" "right_blocks example_board \<noteq> []"
    by (simp_all add: example_board_def)
  show ?thesis using 1 2 4 is_movable_ground_middle[OF 0 1 2 3] by simp
qed

subsection \<open>do\_move and undo\_move\<close>

lemma norm_index_less: "norm_index n i = Some k \<Longrightarrow> k < n"
  by (auto simp: norm_index_def split: if_splits)

lemma grid_cell_valid: "grid_cell b mp = Inr (i, j) \<Longrightarrow> i < length (rows b) \<and> j < length (rows b ! i)"
  by (auto simp: grid_cell_def split: pyrow.splits option.splits dest: norm_index_less)

lemma place_of_valid: "place_of b mp = Inr pl \<Longrightarrow> valid_place b pl"
  by (auto simp: place_of_def split: if_splits sum.splits dest: grid_cell_valid)

lemma length_rows_upd_at [simp]: "length (rows (upd_at b pl f)) = length (rows b)"
  by (cases pl) auto

lemma length_row_upd_at [simp]: "length (rows (upd_at b pl f) ! i) = length (rows b ! i)"
proof (cases pl)
  case (Cell k j)
  then show ?thesis
    by (cases "k < length (rows b)") (auto simp: nth_list_update list_update_beyond not_less)
qed auto

lemma grid_cell_upd_at [simp]: "grid_cell (upd_at b pl f) mp = grid_cell b mp"
  by (simp add: grid_cell_def split: pyrow.splits option.splits)

lemma place_of_upd_at [simp]: "place_of (upd_at b pl f) mp = place_of b mp"
  by (simp add: place_of_def)

lemma valid_place_upd_at [simp]: "valid_place (upd_at b pl f) q = valid_place b q"
  by (cases q) auto

lemma stack_at_upd_at:
  "valid_place b pl \<Longrightarrow> stack_at (upd_at b pl f) q = (if q = pl then f (stack_at b pl) else stack_at b q)"
  by (cases pl; cases q) (auto simp: nth_list_update)

lemma upd_at_id: "f (stack_at b pl) = stack_at b pl \<Longrightarrow> upd_at b pl f = b"
  by (cases pl) auto

lemma upd_at_twice:
  "valid_place b pl \<Longrightarrow> upd_at (upd_at b pl f) pl g = upd_at b pl (\<lambda>s. g (f s))"
  by (cases pl) auto

lemma rows_update_commute:
  assumes "i < length rs" "i' < length rs" "(i, j) \<noteq> (i', j')"
  shows "(rs[i := (rs ! i)[j := f (rs ! i ! j)]])
           [i' := (rs[i := (rs ! i)[j := f (rs ! i ! j)]] ! i')
                    [j' := g (rs[i := (rs ! i)[j := f (rs ! i ! j)]] ! i' ! j')]] =
         (rs[i' := (rs ! i')[j' := g (rs ! i' ! j')]])
           [i := (rs[i' := (rs ! i')[j' := g (rs ! i' ! j')]] ! i)
                    [j := f (rs[i' := (rs ! i')[j' := g (rs ! i' ! j')]] ! i ! j)]]"
proof (cases "i = i'")
  case True
  then have "j \<noteq> j'" using assms(3) by simp
  then show ?thesis using True assms(1) by (simp add: list_update_swap)
next
  case False
  then show ?thesis using assms(1,2) by (simp add: list_update_swap)
qed

lemma upd_at_commute:
  "valid_place b pl \<Longrightarrow> valid_place b q \<Longrightarrow> pl \<noteq> q \<Longrightarrow>
   upd_at (upd_at b pl f) q g = upd_at (upd_at b q g) pl f"
proof (cases pl; cases q)
  fix i j i' j'
  assume v: "valid_place b pl" "valid_place b q" "pl \<noteq> q" and c: "pl = Cell i j" "q = Cell i' j'"
  then have "i < length (rows b)" "i' < length (rows b)" "(i, j) \<noteq> (i', j')" by auto
  from rows_update_commute[OF this, of f g] c show ?thesis by simp
qed auto

lemma remove_piece_place:
  "place_of b mp = Inr pl \<Longrightarrow> stack_at b pl \<noteq> [] \<Longrightarrow> remove_piece b mp = Inr (upd_at b pl butlast)"
  by (auto simp: place_of_def remove_piece_def pop_def split: if_splits sum.splits)

lemma remove_piece_empty:
  "place_of b mp = Inr pl \<Longrightarrow> stack_at b pl = [] \<Longrightarrow> remove_piece b mp = Inl IndexError"
  by (auto simp: place_of_def remove_piece_def pop_def split: if_splits sum.splits)

lemma remove_piece_error:
  "place_of b mp = Inl e \<Longrightarrow> remove_piece b mp = Inl e"
  by (auto simp: place_of_def remove_piece_def pop_def split: if_splits sum.splits)

lemma replace_piece_place:
  "place_of b mp = Inr pl \<Longrightarrow> replace_piece b mp = Inr (upd_at b pl (\<lambda>s. s @ [piece mp]))"
  by (auto simp: place_of_def replace_piece_def split: if_splits sum.splits)

lemma do_undo_places:
  assumes p: "place_of b p0 = Inr pl0" "place_of b p1 = Inr pl1"
    and ne: "pl0 \<noteq> pl1"
    and t0: "stack_at b pl0 \<noteq> []" "last (stack_at b pl0) = piece p0"
    and t1: "stack_at b pl1 \<noteq> []" "last (stack_at b pl1) = piece p1"
  shows "do_move b (p0, p1) = Inr (upd_at (upd_at b pl0 butlast) pl1 butlast)"
    and "undo_move (upd_at (upd_at b pl0 butlast) pl1 butlast) (p0, p1) = Inr b"
proof -
  have v0: "valid_place b pl0" and v1: "valid_place b pl1"
    using p by (auto dest: place_of_valid)
  let ?b1 = "upd_at b pl0 butlast"
  let ?b2 = "upd_at ?b1 pl1 butlast"
  have r0: "remove_piece b p0 = Inr ?b1" using p(1) t0(1) by (rule remove_piece_place)
  have s1: "stack_at ?b1 pl1 = stack_at b pl1" using v0 ne by (simp add: stack_at_upd_at)
  have r1: "remove_piece ?b1 p1 = Inr ?b2"
    by (rule remove_piece_place) (simp_all add: p s1 t1)
  show "do_move b (p0, p1) = Inr ?b2" by (simp add: do_move_def r0 r1)
  let ?b3 = "upd_at ?b2 pl0 (\<lambda>s. s @ [piece p0])"
  have u0: "replace_piece ?b2 p0 = Inr ?b3" by (rule replace_piece_place) (simp add: p)
  have u1: "replace_piece ?b3 p1 = Inr (upd_at ?b3 pl1 (\<lambda>s. s @ [piece p1]))"
    by (rule replace_piece_place) (simp add: p)
  have "?b3 = upd_at (upd_at ?b1 pl0 (\<lambda>s. s @ [piece p0])) pl1 butlast"
    using ne v0 v1 by (simp add: upd_at_commute)
  also have "upd_at ?b1 pl0 (\<lambda>s. s @ [piece p0]) = upd_at b pl0 (\<lambda>s. butlast s @ [piece p0])"
    using v0 by (simp add: upd_at_twice)
  also have "\<dots> = b" by (intro upd_at_id) (metis t0 append_butlast_last_id)
  finally have b3: "?b3 = upd_at b pl1 butlast" .
  have "upd_at ?b3 pl1 (\<lambda>s. s @ [piece p1]) = upd_at b pl1 (\<lambda>s. butlast s @ [piece p1])"
    using v1 by (simp add: b3 upd_at_twice)
  also have "\<dots> = b" by (intro upd_at_id) (metis t1 append_butlast_last_id)
  finally show "undo_move ?b2 (p0, p1) = Inr b" by (simp add: undo_move_def u0 u1)
qed

text \<open>
  Claim C2, as the code has it: for every board and every move whose two MovablePieces
  each name the piece at the exposed top of the stack or pile they refer to, and refer
  to two different stacks or piles (as \<open>remove_piece\<close> resolves them by Python
  indexing), \<open>do_move\<close> succeeds and \<open>undo_move\<close> of the same move right after it
  returns the board it started from: the same stacks, in the same order, and the same
  three piles.
\<close>

theorem undo_move_after_do_move:
  "exposed_top b (fst mv) \<Longrightarrow> exposed_top b (snd mv) \<Longrightarrow>
   place_of b (fst mv) \<noteq> place_of b (snd mv) \<Longrightarrow>
   \<exists>b1. do_move b mv = Inr b1 \<and> undo_move b1 mv = Inr b"
proof -
  assume a: "exposed_top b (fst mv)" "exposed_top b (snd mv)"
    "place_of b (fst mv) \<noteq> place_of b (snd mv)"
  obtain p0 p1 where mv: "mv = (p0, p1)" by (cases mv)
  from a(1) mv obtain pl0 where 0: "place_of b p0 = Inr pl0" "stack_at b pl0 \<noteq> []"
      "last (stack_at b pl0) = piece p0"
    by (auto simp: exposed_top_def split: sum.splits)
  from a(2) mv obtain pl1 where 1: "place_of b p1 = Inr pl1" "stack_at b pl1 \<noteq> []"
      "last (stack_at b pl1) = piece p1"
    by (auto simp: exposed_top_def split: sum.splits)
  have ne: "pl0 \<noteq> pl1" using a(3) 0(1) 1(1) mv by auto
  from do_undo_places[OF 0(1) 1(1) ne 0(2,3) 1(2,3)] mv show ?thesis by blast
qed

lemma place_of_example_00:
  "place_of example_board (MovablePiece (RowInt 0) (Some 0) ''Z'' 1) = Inr (Cell 0 0)"
  by (simp add: place_of_def TOP_def LEFT_def RIGHT_def grid_cell_def norm_index_def example_board_def)

lemma place_of_example_01:
  "place_of example_board (MovablePiece (RowInt 0) (Some 1) ''Z'' 1) = Inr (Cell 0 1)"
  by (simp add: place_of_def TOP_def LEFT_def RIGHT_def grid_cell_def norm_index_def example_board_def)

theorem undo_move_after_do_move_witness:
  "exposed_top example_board (MovablePiece (RowInt 0) (Some 0) ''Z'' 1) \<and>
   exposed_top example_board (MovablePiece (RowInt 0) (Some 1) ''Z'' 1) \<and>
   place_of example_board (MovablePiece (RowInt 0) (Some 0) ''Z'' 1) \<noteq>
     place_of example_board (MovablePiece (RowInt 0) (Some 1) ''Z'' 1) \<and>
   (\<exists>b1. do_move example_board
           (MovablePiece (RowInt 0) (Some 0) ''Z'' 1, MovablePiece (RowInt 0) (Some 1) ''Z'' 1) = Inr b1 \<and>
         undo_move b1
           (MovablePiece (RowInt 0) (Some 0) ''Z'' 1, MovablePiece (RowInt 0) (Some 1) ''Z'' 1) =
           Inr example_board)"
proof -
  let ?p = "MovablePiece (RowInt 0) (Some 0) ''Z'' 1"
  let ?q = "MovablePiece (RowInt 0) (Some 1) ''Z'' 1"
  have 1: "exposed_top example_board (fst (?p, ?q))"
    unfolding exposed_top_def fst_conv place_of_example_00 by (simp add: example_board_def)
  have 2: "exposed_top example_board (snd (?p, ?q))"
    unfolding exposed_top_def snd_conv place_of_example_01 by (simp add: example_board_def)
  have 3: "place_of example_board (fst (?p, ?q)) \<noteq> place_of example_board (snd (?p, ?q))"
    unfolding fst_conv snd_conv place_of_example_00 place_of_example_01 by simp
  show ?thesis using 1 2 3 undo_move_after_do_move[OF 1 2 3] by simp
qed

text \<open>
  Claim C2 as stated asks only that both references name an exposed top. On the freshly
  filled example board, cell (1, 2) holds W below V. A move that names this cell twice,
  and likewise a move that names it once as row 1 and once as row -7 (the same row, by
  Python's negative indexing), has both references at the exposed top; \<open>do_move\<close>
  pops the stack twice and \<open>undo_move\<close> pushes V twice, so the W is lost.
\<close>

theorem undo_move_same_stack_counterexample:
  "exposed_top example_board (MovablePiece (RowInt 1) (Some 2) ''V'' 2) \<and>
   exposed_top example_board (MovablePiece (RowInt (- 7)) (Some 2) ''V'' 2) \<and>
   rows example_board ! 1 ! 2 = [''W'', ''V''] \<and>
   (case do_move example_board
           (MovablePiece (RowInt 1) (Some 2) ''V'' 2, MovablePiece (RowInt 1) (Some 2) ''V'' 2) of
      Inl e \<Rightarrow> False
    | Inr b1 \<Rightarrow>
        (case undo_move b1
                (MovablePiece (RowInt 1) (Some 2) ''V'' 2, MovablePiece (RowInt 1) (Some 2) ''V'' 2) of
           Inl e \<Rightarrow> False
         | Inr b2 \<Rightarrow> rows b2 ! 1 ! 2 = [''V'', ''V''])) \<and>
   (case do_move example_board
           (MovablePiece (RowInt 1) (Some 2) ''V'' 2, MovablePiece (RowInt (- 7)) (Some 2) ''V'' 2) of
      Inl e \<Rightarrow> False
    | Inr b1 \<Rightarrow>
        (case undo_move b1
                (MovablePiece (RowInt 1) (Some 2) ''V'' 2, MovablePiece (RowInt (- 7)) (Some 2) ''V'' 2) of
           Inl e \<Rightarrow> False
         | Inr b2 \<Rightarrow> rows b2 ! 1 ! 2 = [''V'', ''V'']))"
  by code_simp

subsection \<open>What find\_movable\_pieces returns\<close>

text \<open>
  Both scans only add entries for non-empty stacks at the indices they visit, so every
  entry of the result is the canonical MovablePiece of the place it refers to, and the
  scans never raise.
\<close>

lemma getitem_nat: "i < length xs \<Longrightarrow> getitem xs (int i) = Inr (xs ! i)"
  by (simp add: getitem_def norm_index_def)

lemma getitem_Inr_int:
  "getitem xs i = Inr x \<Longrightarrow> 0 \<le> i \<Longrightarrow> nat i < length xs \<and> x = xs ! nat i"
  by (auto simp: getitem_def norm_index_def split: if_splits)

lemma is_movable_in_range:
  "r < length (rows b) \<Longrightarrow> c < length (rows b ! r) \<Longrightarrow>
   \<exists>m. is_movable b (int r) (int c) d = Inr m \<and> (m \<longrightarrow> rows b ! r ! c \<noteq> [])"
  by (simp add: is_movable_def getitem_nat)

lemma place_of_piece_at: "valid_place b pl \<Longrightarrow> place_of b (piece_at b pl) = Inr pl"
  by (cases pl) (auto simp: place_of_def TOP_def LEFT_def RIGHT_def grid_cell_def norm_index_def)

lemma canonical_piece_at:
  "valid_place b pl \<Longrightarrow> stack_at b pl \<noteq> [] \<Longrightarrow> canonical b (piece_at b pl)"
  by (simp add: canonical_def place_of_piece_at)

lemma scan_left_to_right_canonical:
  "rix < length (rows b) \<Longrightarrow> row = rows b ! rix \<Longrightarrow> list_all (canonical b) acc \<Longrightarrow>
   \<exists>mps. scan_left_to_right b rix row cix last_depth acc = Inr mps \<and> list_all (canonical b) mps"
proof (induction b rix row cix last_depth acc rule: scan_left_to_right.induct)
  case (1 b rix row cix last_depth acc)
  show ?case
  proof (cases "cix < length row")
    case False
    then show ?thesis using "1.prems" by (simp add: scan_left_to_right.simps)
  next
    case True
    then have g: "getitem row (int cix) = Inr (row ! cix)" by (rule getitem_nat)
    from is_movable_in_range[of rix b cix True] True "1.prems" obtain m where
      m: "is_movable b (int rix) (int cix) True = Inr m" "m \<longrightarrow> row ! cix \<noteq> []" by auto
    let ?st = "row ! cix"
    let ?new = "MovablePiece (RowInt (int rix)) (Some (int cix)) (last ?st) (length ?st)"
    show ?thesis
    proof (cases "m \<and> length ?st > last_depth")
      case A: True
      have "canonical b (piece_at b (Cell rix cix))"
        using True "1.prems" A m by (intro canonical_piece_at) auto
      then have "list_all (canonical b) (acc @ [?new])" using "1.prems" by simp
      from "1.IH"(1)[OF True g m(1) A "1.prems"(1,2) this] True g m A
      show ?thesis by (subst scan_left_to_right.simps) simp
    next
      case B: False
      show ?thesis
      proof (cases "length ?st < last_depth")
        case True2: True
        then show ?thesis using True g m B "1.prems"
          by (subst scan_left_to_right.simps) auto
      next
        case C: False
        from "1.IH"(2)[OF True g m(1) B C "1.prems"] True g m B C
        show ?thesis by (subst scan_left_to_right.simps) auto
      qed
    qed
  qed
qed

lemma scan_right_to_left_canonical:
  "rix < length (rows b) \<Longrightarrow> row = rows b ! rix \<Longrightarrow> cix < int (length row) \<Longrightarrow>
   list_all (canonical b) acc \<Longrightarrow>
   \<exists>mps. scan_right_to_left b rix row cix last_depth acc = Inr mps \<and> list_all (canonical b) mps"
proof (induction b rix row cix last_depth acc rule: scan_right_to_left.induct)
  case (1 b rix row cix last_depth acc)
  show ?case
  proof (cases "cix \<ge> 0")
    case False
    then show ?thesis using "1.prems" by (simp add: scan_right_to_left.simps)
  next
    case True
    then have c: "nat cix < length row" "int (nat cix) = cix" using "1.prems" by auto
    then have g: "getitem row cix = Inr (row ! nat cix)" using getitem_nat[of "nat cix" row] by simp
    from is_movable_in_range[of rix b "nat cix" False] c "1.prems" obtain m where
      m: "is_movable b (int rix) cix False = Inr m" "m \<longrightarrow> row ! nat cix \<noteq> []" by auto
    let ?st = "row ! nat cix"
    let ?new = "MovablePiece (RowInt (int rix)) (Some cix) (last ?st) (length ?st)"
    have lt: "cix - 1 < int (length row)" using "1.prems" by simp
    show ?thesis
    proof (cases "m \<and> length ?st > last_depth")
      case A: True
      have "canonical b (piece_at b (Cell rix (nat cix)))"
        using c "1.prems" A m by (intro canonical_piece_at) auto
      then have "list_all (canonical b) (acc @ [?new])" using "1.prems" c by simp
      from "1.IH"(1)[OF True g m(1) A "1.prems"(1,2) lt this] True g m A
      show ?thesis by (subst scan_right_to_left.simps) simp
    next
      case B: False
      show ?thesis
      proof (cases "length ?st < last_depth")
        case True2: True
        then show ?thesis using True g m B "1.prems"
          by (subst scan_right_to_left.simps) auto
      next
        case C: False
        from "1.IH"(2)[OF True g m(1) B C "1.prems"(1,2) lt "1.prems"(4)] True g m B C
        show ?thesis by (subst scan_right_to_left.simps) auto
      qed
    qed
  qed
qed

lemma scan_rows_canonical:
  "set rixs \<subseteq> {0..<length (rows b)} \<Longrightarrow> list_all (canonical b) acc \<Longrightarrow>
   \<exists>mps. scan_rows b rixs acc = Inr mps \<and> list_all (canonical b) mps"
proof (induction rixs arbitrary: acc)
  case Nil
  then show ?case by simp
next
  case (Cons rix rixs)
  then have r: "rix < length (rows b)" by simp
  then have g: "getitem (rows b) (int rix) = Inr (rows b ! rix)" by (rule getitem_nat)
  from scan_left_to_right_canonical[OF r refl Cons.prems(2), of 0 0] obtain mps1 where
    1: "scan_left_to_right b rix (rows b ! rix) 0 0 acc = Inr mps1" "list_all (canonical b) mps1"
    by blast
  have "int (length (rows b ! rix)) - 1 < int (length (rows b ! rix))" by simp
  from scan_right_to_left_canonical[OF r refl this 1(2), of 0] obtain mps2 where
    2: "scan_right_to_left b rix (rows b ! rix) (int (length (rows b ! rix)) - 1) 0 mps1 = Inr mps2"
       "list_all (canonical b) mps2"
    by blast
  have "set rixs \<subseteq> {0..<length (rows b)}" using Cons.prems by simp
  from Cons.IH[OF this 2(2)] g 1 2 show ?case by simp
qed

lemma add_piles_canonical:
  "list_all (canonical b) acc \<Longrightarrow> list_all (canonical b) (add_piles b acc)"
  using canonical_piece_at[of b TopPile] canonical_piece_at[of b LeftPile]
    canonical_piece_at[of b RightPile]
  by (simp add: add_piles_def)

lemma find_movable_pieces_canonical:
  "\<exists>mps. find_movable_pieces b = Inr mps \<and> distinct mps \<and> list_all (canonical b) mps"
proof -
  from scan_rows_canonical[of "[0..<length (rows b)]" b "[]"] obtain acc where
    a: "scan_rows b [0..<length (rows b)] [] = Inr acc" "list_all (canonical b) acc" by auto
  have "list_all (canonical b) (add_piles b acc)" using a(2) by (rule add_piles_canonical)
  then have "list_all (canonical b) (sort_key piece_key (remdups (add_piles b acc)))"
    by (simp add: list_all_iff)
  then show ?thesis using a(1) by (simp add: find_movable_pieces_def)
qed

subsection \<open>find\_moves\<close>

text \<open>
  The two nested loops enumerate, for a list, the first element paired with each later
  one, then the pairs of the rest.
\<close>

lemma pairs_Nil [simp]: "pairs [] = []"
  by (simp add: pairs_def)

lemma upt_Suc_shift: "[Suc a..<Suc b] = map Suc [a..<b]"
  by (simp add: map_Suc_upt)

lemma pairs_Cons: "pairs (x # xs) = map (Pair x) xs @ pairs xs"
proof (cases xs)
  case Nil
  then show ?thesis by (simp add: pairs_def)
next
  case (Cons y ys)
  let ?n = "length xs"
  have pos: "0 < ?n" using Cons by simp
  then have "[0..<?n] = 0 # [Suc 0..<?n]" by (rule upt_conv_Cons)
  also have "[Suc 0..<?n] = [Suc 0..<Suc (?n - 1)]" using pos by simp
  also have "\<dots> = map Suc [0..<?n - 1]" by (simp only: map_Suc_upt)
  finally have n: "[0..<?n] = 0 # map Suc [0..<?n - 1]" .
  have first: "map (\<lambda>j. ((x # xs) ! 0, (x # xs) ! j)) [0 + 1..<length (x # xs)] = map (Pair x) xs"
  proof -
    have "[0 + 1..<length (x # xs)] = map Suc [0..<?n]" by (simp add: map_Suc_upt)
    then have "map (\<lambda>j. ((x # xs) ! 0, (x # xs) ! j)) [0 + 1..<length (x # xs)] =
               map (\<lambda>j. (x, xs ! j)) [0..<?n]" by (simp add: comp_def)
    also have "\<dots> = map (Pair x) (map (\<lambda>j. xs ! j) [0..<?n])" by (simp add: comp_def)
    also have "\<dots> = map (Pair x) xs" by (simp add: map_nth)
    finally show ?thesis .
  qed
  have rest: "map (\<lambda>i. map (\<lambda>j. ((x # xs) ! i, (x # xs) ! j)) [i + 1..<length (x # xs)]) (map Suc [0..<?n - 1])
       = map (\<lambda>i. map (\<lambda>j. (xs ! i, xs ! j)) [i + 1..<?n]) [0..<?n - 1]"
  proof -
    have "\<And>i. map (\<lambda>j. ((x # xs) ! Suc i, (x # xs) ! j)) [Suc i + 1..<length (x # xs)] =
               map (\<lambda>j. (xs ! i, xs ! j)) [i + 1..<?n]"
    proof -
      fix i
      have "[Suc i + 1..<length (x # xs)] = map Suc [i + 1..<?n]" by (simp add: map_Suc_upt)
      then show "map (\<lambda>j. ((x # xs) ! Suc i, (x # xs) ! j)) [Suc i + 1..<length (x # xs)] =
               map (\<lambda>j. (xs ! i, xs ! j)) [i + 1..<?n]" by (simp add: comp_def)
    qed
    then show ?thesis by (simp add: comp_def)
  qed
  have "pairs (x # xs) =
     concat (map (\<lambda>i. map (\<lambda>j. ((x # xs) ! i, (x # xs) ! j)) [i + 1..<length (x # xs)]) [0..<?n])"
    by (simp add: pairs_def)
  also have "\<dots> = map (\<lambda>j. ((x # xs) ! 0, (x # xs) ! j)) [0 + 1..<length (x # xs)] @
     concat (map (\<lambda>i. map (\<lambda>j. ((x # xs) ! i, (x # xs) ! j)) [i + 1..<length (x # xs)]) (map Suc [0..<?n - 1]))"
    by (subst n) simp
  also have "\<dots> = map (Pair x) xs @ pairs xs"
    by (simp only: first rest) (simp add: pairs_def)
  finally show ?thesis .
qed

lemma length_pairs: "length (pairs xs) = length xs * (length xs - 1) div 2"
proof (induction xs)
  case Nil
  then show ?case by simp
next
  case (Cons x xs)
  have "length xs + length xs * (length xs - 1) div 2 = (length xs + 1) * length xs div 2"
  proof (cases "length xs")
    case 0
    then show ?thesis by simp
  next
    case (Suc m)
    have "Suc m + Suc m * m div 2 = (2 * Suc m + Suc m * m) div 2" by simp
    also have "2 * Suc m + Suc m * m = (Suc m + 1) * Suc m" by (simp add: algebra_simps)
    finally show ?thesis using Suc by simp
  qed
  then show ?case using Cons by (simp add: pairs_Cons)
qed

lemma set_pairs_subset: "(a, b) \<in> set (pairs xs) \<Longrightarrow> a \<in> set xs \<and> b \<in> set xs"
  by (induction xs) (auto simp: pairs_Cons)

lemma distinct_pairs: "distinct xs \<Longrightarrow> distinct (pairs xs)"
  by (induction xs) (auto simp: pairs_Cons distinct_map inj_on_def dest: set_pairs_subset)

lemma pairs_neq: "distinct xs \<Longrightarrow> (a, b) \<in> set (pairs xs) \<Longrightarrow> a \<noteq> b"
  by (induction xs) (auto simp: pairs_Cons dest: set_pairs_subset)

lemma set_pairs_filter:
  "set (pairs (filter P xs)) =
   {(xs ! i, xs ! j) | i j. i < j \<and> j < length xs \<and> P (xs ! i) \<and> P (xs ! j)}"
proof (induction xs)
  case Nil
  then show ?case by simp
next
  case (Cons x xs)
  let ?S = "\<lambda>ys. {(ys ! i, ys ! j) | i j. i < j \<and> j < length ys \<and> P (ys ! i) \<and> P (ys ! j)}"
  have dec: "?S (x # xs) = {(x, y) | y. P x \<and> y \<in> set xs \<and> P y} \<union> ?S xs"
  proof (intro equalityI subsetI)
    fix p assume "p \<in> ?S (x # xs)"
    then obtain i j where ij: "p = ((x # xs) ! i, (x # xs) ! j)" "i < j" "j < length (x # xs)"
      "P ((x # xs) ! i)" "P ((x # xs) ! j)" by blast
    from ij(2) obtain j' where j': "j = Suc j'" by (cases j) auto
    show "p \<in> {(x, y) | y. P x \<and> y \<in> set xs \<and> P y} \<union> ?S xs"
    proof (cases i)
      case 0
      then show ?thesis using ij j' by auto
    next
      case (Suc i')
      then have "p = (xs ! i', xs ! j')" "i' < j'" "j' < length xs" "P (xs ! i')" "P (xs ! j')"
        using ij j' by auto
      then show ?thesis by blast
    qed
  next
    fix p assume "p \<in> {(x, y) | y. P x \<and> y \<in> set xs \<and> P y} \<union> ?S xs"
    then show "p \<in> ?S (x # xs)"
    proof
      assume "p \<in> {(x, y) | y. P x \<and> y \<in> set xs \<and> P y}"
      then obtain y where y: "p = (x, y)" "P x" "y \<in> set xs" "P y" by blast
      then obtain j where "j < length xs" "xs ! j = y" by (auto simp: in_set_conv_nth)
      then have "p = ((x # xs) ! 0, (x # xs) ! Suc j) \<and> 0 < Suc j \<and> Suc j < length (x # xs) \<and>
         P ((x # xs) ! 0) \<and> P ((x # xs) ! Suc j)" using y by simp
      then show ?thesis by blast
    next
      assume "p \<in> ?S xs"
      then obtain i j where "p = (xs ! i, xs ! j)" "i < j" "j < length xs" "P (xs ! i)" "P (xs ! j)"
        by blast
      then have "p = ((x # xs) ! Suc i, (x # xs) ! Suc j) \<and> Suc i < Suc j \<and> Suc j < length (x # xs) \<and>
         P ((x # xs) ! Suc i) \<and> P ((x # xs) ! Suc j)" by simp
      then show ?thesis by blast
    qed
  qed
  show ?case
  proof (cases "P x")
    case True
    then show ?thesis using Cons dec by (auto simp: pairs_Cons)
  next
    case False
    then show ?thesis using Cons dec by auto
  qed
qed

lemma map_of_setdefault_append:
  "map_of (setdefault_append k v d) =
   (map_of d)(k \<mapsto> (case map_of d k of None \<Rightarrow> [v] | Some vs \<Rightarrow> vs @ [v]))"
  by (induction k v d rule: setdefault_append.induct) (auto simp: fun_eq_iff)

lemma keys_setdefault_append:
  "fst ` set (setdefault_append k v d) = insert k (fst ` set d)"
  by (induction k v d rule: setdefault_append.induct) auto

lemma distinct_setdefault_append:
  "distinct (map fst d) \<Longrightarrow> distinct (map fst (setdefault_append k v d))"
  by (induction k v d rule: setdefault_append.induct) (auto simp: keys_setdefault_append)

lemma movables_by_piece_snoc:
  "movables_by_piece (xs @ [x]) = setdefault_append (piece x) x (movables_by_piece xs)"
  by (simp add: movables_by_piece_def)

lemma movables_by_piece_keys: "distinct (map fst (movables_by_piece mps))"
  by (induction mps rule: rev_induct)
     (simp_all add: movables_by_piece_def distinct_setdefault_append)

lemma map_of_movables_by_piece:
  "map_of (movables_by_piece mps) k =
     (if k \<in> piece ` set mps then Some (filter (\<lambda>m. piece m = k) mps) else None)"
proof (induction mps rule: rev_induct)
  case Nil
  then show ?case by (simp add: movables_by_piece_def)
next
  case (snoc x xs)
  show ?case
  proof (cases "k = piece x")
    case False
    then show ?thesis using snoc
      by (simp add: movables_by_piece_snoc map_of_setdefault_append)
  next
    case True
    show ?thesis
    proof (cases "piece x \<in> piece ` set xs")
      case A: True
      then show ?thesis using snoc True
        by (simp add: movables_by_piece_snoc map_of_setdefault_append)
    next
      case B: False
      then have "filter (\<lambda>m. piece m = piece x) xs = []"
        by (auto simp: filter_empty_conv image_iff)
      then show ?thesis using snoc True B
        by (simp add: movables_by_piece_snoc map_of_setdefault_append)
    qed
  qed
qed

lemma movables_by_piece_entry:
  "(k, vs) \<in> set (movables_by_piece mps) \<longleftrightarrow>
   k \<in> piece ` set mps \<and> vs = filter (\<lambda>m. piece m = k) mps"
proof -
  have "(k, vs) \<in> set (movables_by_piece mps) \<longleftrightarrow> map_of (movables_by_piece mps) k = Some vs"
    using movables_by_piece_keys[of mps] by (simp add: map_of_eq_Some_iff)
  also have "\<dots> \<longleftrightarrow> k \<in> piece ` set mps \<and> vs = filter (\<lambda>m. piece m = k) mps"
    unfolding map_of_movables_by_piece by (cases "k \<in> piece ` set mps") auto
  finally show ?thesis .
qed

lemma pairs_filter_piece:
  "(a, b) \<in> set (pairs (filter (\<lambda>m. piece m = k) mps)) \<Longrightarrow> piece a = k \<and> piece b = k"
  by (auto dest: set_pairs_subset)

lemma set_candidate_moves:
  "set (candidate_moves mps) =
   {(mps ! i, mps ! j) | i j. i < j \<and> j < length mps \<and> piece (mps ! i) = piece (mps ! j)}"
  (is "?L = ?R")
proof (intro equalityI subsetI)
  fix m assume "m \<in> ?L"
  then obtain k vs where kv: "(k, vs) \<in> set (movables_by_piece mps)" "m \<in> set (pairs vs)"
    by (auto simp: candidate_moves_def)
  then have "m \<in> set (pairs (filter (\<lambda>m. piece m = k) mps))"
    by (simp add: movables_by_piece_entry)
  then obtain i j where "m = (mps ! i, mps ! j)" "i < j" "j < length mps"
      "piece (mps ! i) = k" "piece (mps ! j) = k"
    unfolding set_pairs_filter by blast
  then have "m = (mps ! i, mps ! j) \<and> i < j \<and> j < length mps \<and> piece (mps ! i) = piece (mps ! j)"
    by simp
  then show "m \<in> ?R" by blast
next
  fix m assume "m \<in> ?R"
  then obtain i j where ij: "m = (mps ! i, mps ! j)" "i < j" "j < length mps"
    "piece (mps ! i) = piece (mps ! j)" by blast
  let ?k = "piece (mps ! i)"
  have "m \<in> set (pairs (filter (\<lambda>m. piece m = ?k) mps))"
    unfolding set_pairs_filter using ij by auto
  moreover have "(?k, filter (\<lambda>m. piece m = ?k) mps) \<in> set (movables_by_piece mps)"
    using ij by (simp add: movables_by_piece_entry)
  ultimately show "m \<in> ?L" by (force simp: candidate_moves_def)
qed

lemma distinct_concat_groups:
  "distinct (map fst G) \<Longrightarrow>
   (\<And>k vs. (k, vs) \<in> set G \<Longrightarrow> distinct vs \<and> (\<forall>m\<in>set vs. piece m = k)) \<Longrightarrow>
   distinct (concat (map (\<lambda>(s, pieces). pairs pieces) G))"
proof (induction G)
  case Nil
  then show ?case by simp
next
  case (Cons g G)
  obtain k vs where g: "g = (k, vs)" by (cases g)
  have 1: "distinct (pairs vs)" using Cons.prems(2)[of k vs] g by (simp add: distinct_pairs)
  have 2: "distinct (concat (map (\<lambda>(s, pieces). pairs pieces) G))"
    using Cons by auto
  have 3: "set (pairs vs) \<inter> set (concat (map (\<lambda>(s, pieces). pairs pieces) G)) = {}"
  proof (rule ccontr)
    assume "set (pairs vs) \<inter> set (concat (map (\<lambda>(s, pieces). pairs pieces) G)) \<noteq> {}"
    then obtain a b k' vs' where ab: "(a, b) \<in> set (pairs vs)" "(k', vs') \<in> set G"
      "(a, b) \<in> set (pairs vs')" by auto
    have "piece a = k" using ab(1) Cons.prems(2)[of k vs] g by (auto dest: set_pairs_subset)
    moreover have "piece a = k'" using ab(2,3) Cons.prems(2)[of k' vs'] by (auto dest: set_pairs_subset)
    moreover have "k' \<noteq> k" using ab(2) Cons.prems(1) g by force
    ultimately show False by simp
  qed
  show ?case using 1 2 3 g by simp
qed

lemma distinct_candidate_moves: "distinct mps \<Longrightarrow> distinct (candidate_moves mps)"
  unfolding candidate_moves_def
  by (rule distinct_concat_groups) (auto simp: movables_by_piece_keys movables_by_piece_entry)

lemma set_find_moves: "set (find_moves mps) = set (candidate_moves mps)"
  by (simp add: find_moves_def)

lemma find_moves_member:
  "(p, q) \<in> set (find_moves mps) \<Longrightarrow>
   p \<in> set mps \<and> q \<in> set mps \<and> piece p = piece q \<and> (distinct mps \<longrightarrow> p \<noteq> q)"
  unfolding set_find_moves set_candidate_moves
  by (auto simp: nth_eq_iff_index_eq)

lemma count_find_moves:
  assumes "distinct mps"
  shows "length (filter (\<lambda>m. piece (fst m) = s) (find_moves mps)) =
         length (filter (\<lambda>p. piece p = s) mps) * (length (filter (\<lambda>p. piece p = s) mps) - 1) div 2"
proof -
  let ?vs = "filter (\<lambda>p. piece p = s) mps"
  have d: "distinct (filter (\<lambda>m. piece (fst m) = s) (find_moves mps))"
    by (simp add: find_moves_def)
  have "set (filter (\<lambda>m. piece (fst m) = s) (find_moves mps)) = set (pairs ?vs)"
  proof (intro equalityI subsetI)
    fix m assume "m \<in> set (filter (\<lambda>m. piece (fst m) = s) (find_moves mps))"
    then have m: "m \<in> set (candidate_moves mps)" "piece (fst m) = s"
      by (simp_all add: set_find_moves)
    then obtain k vs where kv: "(k, vs) \<in> set (movables_by_piece mps)" "m \<in> set (pairs vs)"
      by (auto simp: candidate_moves_def)
    then have in_k: "m \<in> set (pairs (filter (\<lambda>m. piece m = k) mps))"
      by (simp add: movables_by_piece_entry)
    then have "piece (fst m) = k" using pairs_filter_piece[of "fst m" "snd m" k mps] by simp
    then show "m \<in> set (pairs ?vs)" using in_k m(2) by simp
  next
    fix m assume m: "m \<in> set (pairs ?vs)"
    then obtain i j where "m = (mps ! i, mps ! j)" "i < j" "j < length mps"
        "piece (mps ! i) = s" "piece (mps ! j) = s"
      unfolding set_pairs_filter by blast
    then have "m = (mps ! i, mps ! j) \<and> i < j \<and> j < length mps \<and> piece (mps ! i) = piece (mps ! j)"
      by simp
    then have "m \<in> set (candidate_moves mps)" unfolding set_candidate_moves by blast
    moreover have "piece (fst m) = s" using m pairs_filter_piece[of "fst m" "snd m" s mps] by simp
    ultimately show "m \<in> set (filter (\<lambda>m. piece (fst m) = s) (find_moves mps))"
      by (simp add: set_find_moves)
  qed
  then have e: "card (set (filter (\<lambda>m. piece (fst m) = s) (find_moves mps))) = card (set (pairs ?vs))"
    by (simp only:)
  have dp: "distinct (pairs ?vs)" using assms by (simp add: distinct_pairs)
  have "length (filter (\<lambda>m. piece (fst m) = s) (find_moves mps)) =
        card (set (filter (\<lambda>m. piece (fst m) = s) (find_moves mps)))"
    using d by (rule distinct_card[symmetric])
  also have "\<dots> = card (set (pairs ?vs))" by (rule e)
  also have "\<dots> = length (pairs ?vs)" using dp by (rule distinct_card)
  finally have "length (filter (\<lambda>m. piece (fst m) = s) (find_moves mps)) = length (pairs ?vs)" .
  then show ?thesis by (simp add: length_pairs)
qed

lemma find_moves_two: "piece a = piece b \<Longrightarrow> find_moves [a, b] = [(a, b)]"
  by (simp add: find_moves_def candidate_moves_def movables_by_piece_def pairs_Cons)

text \<open>
  Claim C7, as the code has it: for every list of movable pieces without repeated
  entries (as \<open>find_movable_pieces\<close> returns it), \<open>find_moves\<close> returns exactly the
  pairs of entries at two positions \<open>i < j\<close> that share the piece symbol, each once:
  a symbol with \<open>n\<close> movable occurrences contributes \<open>n * (n - 1) div 2\<close> moves, and a
  list of exactly two pieces sharing a symbol gives exactly one move, that pair.
\<close>

theorem find_moves_pairs:
  "distinct mps \<Longrightarrow>
   set (find_moves mps) =
     {(mps ! i, mps ! j) | i j. i < j \<and> j < length mps \<and> piece (mps ! i) = piece (mps ! j)} \<and>
   distinct (find_moves mps) \<and>
   (\<forall>s. length (filter (\<lambda>m. piece (fst m) = s) (find_moves mps)) =
        length (filter (\<lambda>p. piece p = s) mps) * (length (filter (\<lambda>p. piece p = s) mps) - 1) div 2) \<and>
   (\<forall>a b. mps = [a, b] \<and> piece a = piece b \<longrightarrow> find_moves mps = [(a, b)])"
  using count_find_moves[of mps] find_moves_two
  by (simp add: set_find_moves set_candidate_moves find_moves_def)

theorem find_moves_pairs_witness:
  "distinct [MovablePiece (RowInt 0) (Some 0) ''Z'' 1, MovablePiece (RowInt 0) (Some 1) ''Z'' 1,
             MovablePiece (RowInt 0) (Some 4) ''Y'' 1] \<and>
   distinct (find_moves [MovablePiece (RowInt 0) (Some 0) ''Z'' 1, MovablePiece (RowInt 0) (Some 1) ''Z'' 1,
             MovablePiece (RowInt 0) (Some 4) ''Y'' 1]) \<and>
   (\<forall>s. length (filter (\<lambda>m. piece (fst m) = s)
          (find_moves [MovablePiece (RowInt 0) (Some 0) ''Z'' 1, MovablePiece (RowInt 0) (Some 1) ''Z'' 1,
             MovablePiece (RowInt 0) (Some 4) ''Y'' 1])) =
        length (filter (\<lambda>p. piece p = s)
          [MovablePiece (RowInt 0) (Some 0) ''Z'' 1, MovablePiece (RowInt 0) (Some 1) ''Z'' 1,
             MovablePiece (RowInt 0) (Some 4) ''Y'' 1]) *
        (length (filter (\<lambda>p. piece p = s)
          [MovablePiece (RowInt 0) (Some 0) ''Z'' 1, MovablePiece (RowInt 0) (Some 1) ''Z'' 1,
             MovablePiece (RowInt 0) (Some 4) ''Y'' 1]) - 1) div 2) \<and>
   find_moves [MovablePiece (RowInt 0) (Some 0) ''Z'' 1, MovablePiece (RowInt 0) (Some 1) ''Z'' 1,
             MovablePiece (RowInt 0) (Some 4) ''Y'' 1] =
     [(MovablePiece (RowInt 0) (Some 0) ''Z'' 1, MovablePiece (RowInt 0) (Some 1) ''Z'' 1)]"
proof -
  let ?W = "[MovablePiece (RowInt 0) (Some 0) ''Z'' 1, MovablePiece (RowInt 0) (Some 1) ''Z'' 1,
             MovablePiece (RowInt 0) (Some 4) ''Y'' 1]"
  have d: "distinct ?W" by simp
  note t = find_moves_pairs[OF d]
  have e: "find_moves ?W =
      [(MovablePiece (RowInt 0) (Some 0) ''Z'' 1, MovablePiece (RowInt 0) (Some 1) ''Z'' 1)]"
    by (simp add: find_moves_def candidate_moves_def movables_by_piece_def pairs_Cons)
  show ?thesis
    by (intro conjI) (rule d, rule t[THEN conjunct2, THEN conjunct1],
      rule t[THEN conjunct2, THEN conjunct2, THEN conjunct1], rule e)
qed

text \<open>
  Claim C7 as stated speaks of every list. A list that repeats an entry makes the set
  \<open>moves\<close> collapse equal pairs: three copies of one MovablePiece give one move, not
  the three that \<open>n * (n - 1) div 2\<close> counts.
\<close>

theorem find_moves_duplicates_counterexample:
  "find_moves [MovablePiece (RowInt 0) (Some 0) ''A'' 1, MovablePiece (RowInt 0) (Some 0) ''A'' 1,
               MovablePiece (RowInt 0) (Some 0) ''A'' 1] =
     [(MovablePiece (RowInt 0) (Some 0) ''A'' 1, MovablePiece (RowInt 0) (Some 0) ''A'' 1)] \<and>
   length (filter (\<lambda>p. piece p = ''A'')
     [MovablePiece (RowInt 0) (Some 0) ''A'' 1, MovablePiece (RowInt 0) (Some 0) ''A'' 1,
      MovablePiece (RowInt 0) (Some 0) ''A'' 1]) = 3 \<and>
   length (find_moves [MovablePiece (RowInt 0) (Some 0) ''A'' 1, MovablePiece (RowInt 0) (Some 0) ''A'' 1,
               MovablePiece (RowInt 0) (Some 0) ''A'' 1]) \<noteq> 3 * (3 - 1) div 2"
  by (simp add: find_moves_def candidate_moves_def movables_by_piece_def pairs_Cons)

subsection \<open>Piece counts under a move\<close>

lemma concat_update_mset:
  "i < length xss \<Longrightarrow>
   mset (concat (xss[i := ys])) + mset (xss ! i) = mset (concat xss) + mset ys"
proof -
  assume i: "i < length xss"
  have 1: "xss = take i xss @ xss ! i # drop (Suc i) xss" using i by (rule id_take_nth_drop)
  have 2: "xss[i := ys] = take i xss @ ys # drop (Suc i) xss" using i by (rule upd_conv_take_nth_drop)
  have "mset (concat xss) = mset (concat (take i xss)) + mset (xss ! i) + mset (concat (drop (Suc i) xss))"
    by (subst 1) simp
  moreover have "mset (concat (xss[i := ys])) =
      mset (concat (take i xss)) + mset ys + mset (concat (drop (Suc i) xss))"
    by (subst 2) simp
  ultimately show ?thesis by simp
qed

lemma concat_concat_map: "concat (concat xsss) = concat (map concat xsss)"
  by (induction xsss) auto

lemma grid_update_mset:
  assumes "i < length R" "j < length (R ! i)"
  shows "mset (concat (concat (R[i := (R ! i)[j := st']]))) + mset (R ! i ! j) =
         mset (concat (concat R)) + mset st'"
proof -
  let ?row' = "(R ! i)[j := st']"
  have a: "mset (concat ?row') + mset (R ! i ! j) = mset (concat (R ! i)) + mset st'"
    using assms(2) by (rule concat_update_mset)
  have "map concat (R[i := ?row']) = (map concat R)[i := concat ?row']" by (simp add: map_update)
  then have "mset (concat (concat (R[i := ?row']))) + mset (map concat R ! i) =
        mset (concat (map concat R)) + mset (concat ?row')"
    using concat_update_mset[of i "map concat R" "concat ?row'"] assms(1)
    by (simp add: concat_concat_map)
  then have b: "mset (concat (concat (R[i := ?row']))) + mset (concat (R ! i)) =
        mset (concat (concat R)) + mset (concat ?row')"
    using assms(1) by (simp add: concat_concat_map)
  have "mset (concat (concat (R[i := ?row']))) + mset (R ! i ! j) + mset (concat (R ! i)) =
        mset (concat (concat R)) + (mset (concat ?row') + mset (R ! i ! j))"
    using b by (simp add: ac_simps)
  also have "\<dots> = mset (concat (concat R)) + mset st' + mset (concat (R ! i))"
    using a by (simp add: ac_simps)
  finally show ?thesis by simp
qed

lemma all_pieces_upd_at:
  "valid_place b pl \<Longrightarrow>
   mset (all_pieces (upd_at b pl f)) + mset (stack_at b pl) =
   mset (all_pieces b) + mset (f (stack_at b pl))"
proof (cases pl)
  case (Cell i j)
  assume "valid_place b pl"
  then have "i < length (rows b)" "j < length (rows b ! i)" using Cell by auto
  from grid_update_mset[OF this, of "f (rows b ! i ! j)"] Cell show ?thesis
    by (simp add: all_pieces_def grid_pieces_def ac_simps)
qed (simp_all add: all_pieces_def grid_pieces_def)

lemma all_pieces_pop:
  assumes "valid_place b pl" "stack_at b pl \<noteq> []"
  shows "mset (all_pieces b) = add_mset (last (stack_at b pl)) (mset (all_pieces (upd_at b pl butlast)))"
proof -
  have "mset (stack_at b pl) = add_mset (last (stack_at b pl)) (mset (butlast (stack_at b pl)))"
    using assms(2) by (metis append_butlast_last_id mset_append mset_single_iff_right
        union_mset_add_mset_right add.right_neutral mset.simps(1,2))
  then show ?thesis using all_pieces_upd_at[OF assms(1), of butlast] by simp
qed

lemma find_movable_pieces_example:
  "find_movable_pieces example_board = Inr example_movable_pieces"
  by code_simp

lemma piece_piece_at: "piece (piece_at b pl) = last (stack_at b pl)"
  by (cases pl) auto

lemma canonical_place:
  "canonical b p \<Longrightarrow>
   \<exists>pl. place_of b p = Inr pl \<and> valid_place b pl \<and> stack_at b pl \<noteq> [] \<and> p = piece_at b pl"
  by (auto simp: canonical_def split: sum.splits dest: place_of_valid)

lemma canonical_exposed_top: "canonical b p \<Longrightarrow> exposed_top b p"
  using piece_piece_at by (auto simp: canonical_def exposed_top_def split: sum.splits)

lemma canonical_same_place:
  "canonical b p \<Longrightarrow> canonical b q \<Longrightarrow> place_of b p = place_of b q \<Longrightarrow> p = q"
  by (auto simp: canonical_def split: sum.splits)

lemma piece_at_coordinates:
  "row_ix (piece_at b pl) = row_ix (piece_at b pl') \<Longrightarrow>
   col_ix (piece_at b pl) = col_ix (piece_at b pl') \<Longrightarrow> pl = pl'"
  by (cases pl; cases pl') (auto simp: TOP_def LEFT_def RIGHT_def)

lemma canonical_same_coordinates:
  "canonical b p \<Longrightarrow> canonical b q \<Longrightarrow> row_ix p = row_ix q \<Longrightarrow> col_ix p = col_ix q \<Longrightarrow> p = q"
proof -
  assume a: "canonical b p" "canonical b q" "row_ix p = row_ix q" "col_ix p = col_ix q"
  from canonical_place[OF a(1)] obtain pl where p: "p = piece_at b pl" by blast
  from canonical_place[OF a(2)] obtain pl' where q: "q = piece_at b pl'" by blast
  have "pl = pl'" using a(3,4) p q piece_at_coordinates by blast
  then show ?thesis using p q by simp
qed

lemma found_moves_legal:
  assumes "find_movable_pieces b = Inr mps" "mv \<in> set (find_moves mps)"
  shows "legal b mv \<and> piece (fst mv) = piece (snd mv)"
proof -
  from find_movable_pieces_canonical[of b] assms(1)
  have d: "distinct mps" and c: "list_all (canonical b) mps" by auto
  obtain p q where mv: "mv = (p, q)" by (cases mv)
  from find_moves_member[of p q mps] assms(2) mv d
  have m: "p \<in> set mps" "q \<in> set mps" "piece p = piece q" "p \<noteq> q" by auto
  have cp: "canonical b p" and cq: "canonical b q" using c m by (auto simp: list_all_iff)
  have "place_of b p \<noteq> place_of b q" using canonical_same_place[OF cp cq] m(4) by blast
  then show ?thesis using cp cq m(3) mv by (simp add: legal_def canonical_exposed_top)
qed

lemma legal_do_move:
  assumes "legal b mv"
  shows "\<exists>b'. do_move b mv = Inr b' \<and> undo_move b' mv = Inr b \<and>
     mset (all_pieces b) = add_mset (piece (fst mv)) (add_mset (piece (snd mv)) (mset (all_pieces b')))"
proof -
  obtain p q where mv: "mv = (p, q)" by (cases mv)
  from assms mv obtain pl0 where 0: "place_of b p = Inr pl0" "stack_at b pl0 \<noteq> []"
      "last (stack_at b pl0) = piece p"
    by (auto simp: legal_def exposed_top_def split: sum.splits)
  from assms mv obtain pl1 where 1: "place_of b q = Inr pl1" "stack_at b pl1 \<noteq> []"
      "last (stack_at b pl1) = piece q"
    by (auto simp: legal_def exposed_top_def split: sum.splits)
  have ne: "pl0 \<noteq> pl1" using assms mv 0(1) 1(1) by (auto simp: legal_def)
  have v0: "valid_place b pl0" and v1: "valid_place b pl1"
    using 0(1) 1(1) by (auto dest: place_of_valid)
  let ?b1 = "upd_at b pl0 butlast"
  let ?b2 = "upd_at ?b1 pl1 butlast"
  note du = do_undo_places[OF 0(1) 1(1) ne 0(2,3) 1(2,3)]
  have m1: "mset (all_pieces b) = add_mset (piece p) (mset (all_pieces ?b1))"
    using all_pieces_pop[OF v0 0(2)] 0(3) by simp
  have s1: "stack_at ?b1 pl1 = stack_at b pl1" using v0 ne by (simp add: stack_at_upd_at)
  have "valid_place ?b1 pl1" using v1 by simp
  from all_pieces_pop[OF this] s1 1(2,3)
  have m2: "mset (all_pieces ?b1) = add_mset (piece q) (mset (all_pieces ?b2))" by simp
  show ?thesis using du m1 m2 mv by simp
qed

lemma symbol_count_mset: "symbol_count b s = count (mset (all_pieces b)) s"
  by (simp add: symbol_count_def count_mset)

lemma count_replicate: "count_list (replicate k x) s = (if x = s then k else 0)"
  by (induction k) auto

lemma count_concat_replicate:
  "count_list (concat (map (replicate k) xs)) s = k * count_list xs s"
  by (induction xs) (auto simp: count_replicate)

lemma fresh_even: "fill rnd Board_init = Inr b \<Longrightarrow> even (symbol_count b s)"
proof -
  assume f: "fill rnd Board_init = Inr b"
  from fill_Board_init[of rnd] f
  have "mset (all_pieces b) = mset (concat (map (replicate 4) PIECES))" by auto
  then have "symbol_count b s = count_list (concat (map (replicate 4) PIECES)) s"
    by (simp add: symbol_count_mset count_mset)
  then show ?thesis by (simp add: count_concat_replicate)
qed

lemma legal_move_counts:
  assumes "legal b mv" "piece (fst mv) = piece (snd mv)" "do_move b mv = Inr b'"
  shows "total_pieces b' + 2 = total_pieces b"
    and "even (symbol_count b s) \<Longrightarrow> even (symbol_count b' s)"
proof -
  from legal_do_move[OF assms(1)] assms(3)
  have m: "mset (all_pieces b) =
      add_mset (piece (fst mv)) (add_mset (piece (snd mv)) (mset (all_pieces b')))" by auto
  then have "size (mset (all_pieces b)) = size (mset (all_pieces b')) + 2" by simp
  then show "total_pieces b' + 2 = total_pieces b" by (simp add: total_pieces_def)
  have "symbol_count b s = symbol_count b' s + (if s = piece (fst mv) then 2 else 0)"
    using m assms(2) by (simp add: symbol_count_mset)
  then show "even (symbol_count b s) \<Longrightarrow> even (symbol_count b' s)"
    by (simp split: if_splits)
qed

lemma reachable_even: "reachable b \<Longrightarrow> even (symbol_count b s)"
proof (induction rule: reachable.induct)
  case (fresh rnd b)
  then show ?case by (rule fresh_even)
next
  case (step b mps mv b')
  have "legal b mv \<and> piece (fst mv) = piece (snd mv)"
    using step.hyps(2,3) by (rule found_moves_legal)
  then show ?case using legal_move_counts(2)[of b mv b' s] step by blast
qed

text \<open>
  Claim C1: on every board reachable from a freshly filled board, every move that
  \<open>find_moves\<close> returns over \<open>find_movable_pieces\<close> is applied by \<open>do_move\<close> without
  an error, the board after it holds exactly two pieces fewer (grid stacks and the three
  piles together), and the number of remaining pieces of every symbol is even.
\<close>

theorem found_move_removes_pair:
  "reachable b \<Longrightarrow> find_movable_pieces b = Inr mps \<Longrightarrow> mv \<in> set (find_moves mps) \<Longrightarrow>
   \<exists>b'. do_move b mv = Inr b' \<and> total_pieces b' + 2 = total_pieces b \<and>
        (\<forall>s. even (symbol_count b' s))"
proof -
  assume r: "reachable b" and f: "find_movable_pieces b = Inr mps" and m: "mv \<in> set (find_moves mps)"
  have l: "legal b mv" "piece (fst mv) = piece (snd mv)" using found_moves_legal[OF f m] by auto
  from legal_do_move[OF l(1)] obtain b' where b': "do_move b mv = Inr b'" by blast
  have "total_pieces b' + 2 = total_pieces b" using l b' by (rule legal_move_counts(1))
  moreover have "\<forall>s. even (symbol_count b' s)"
    using legal_move_counts(2)[OF l b'] reachable_even[OF r] by blast
  ultimately show ?thesis using b' by blast
qed

lemma example_move_member:
  "(MovablePiece LEFT None ''0'' 1, MovablePiece RIGHT None ''0'' 1) \<in> set (find_moves example_movable_pieces)"
  by code_simp

theorem found_move_removes_pair_witness:
  "reachable example_board \<and> find_movable_pieces example_board = Inr example_movable_pieces \<and>
   (MovablePiece LEFT None ''0'' 1, MovablePiece RIGHT None ''0'' 1)
     \<in> set (find_moves example_movable_pieces) \<and>
   (\<exists>b'. do_move example_board (MovablePiece LEFT None ''0'' 1, MovablePiece RIGHT None ''0'' 1) = Inr b' \<and>
        total_pieces b' + 2 = total_pieces example_board \<and> (\<forall>s. even (symbol_count b' s)))"
proof -
  have r: "reachable example_board" using fill_example_board by (rule reachable.fresh)
  show ?thesis
    using r find_movable_pieces_example example_move_member
      found_move_removes_pair[OF r find_movable_pieces_example example_move_member]
    by blast
qed

subsection \<open>Equality of MovablePiece values\<close>

text \<open>
  Claim C5, as the code has it: two MovablePiece values are equal exactly when all four
  fields (row, column, piece and depth) are equal; for two entries of one result of
  \<open>find_movable_pieces\<close> that is the case exactly when their (row, col) coordinates
  are equal.
\<close>

theorem MovablePiece_eq_fields:
  "(MovablePiece_eq x y \<longleftrightarrow>
      row_ix x = row_ix y \<and> col_ix x = col_ix y \<and> piece x = piece y \<and> depth x = depth y) \<and>
   (\<forall>b mps. find_movable_pieces b = Inr mps \<and> x \<in> set mps \<and> y \<in> set mps \<longrightarrow>
      (MovablePiece_eq x y \<longleftrightarrow> row_ix x = row_ix y \<and> col_ix x = col_ix y))"
proof -
  have e: "MovablePiece_eq x y \<longleftrightarrow> x = y"
    by (cases x; cases y) (auto simp: MovablePiece_eq_def)
  have 1: "MovablePiece_eq x y \<longleftrightarrow>
      row_ix x = row_ix y \<and> col_ix x = col_ix y \<and> piece x = piece y \<and> depth x = depth y"
    by (simp add: MovablePiece_eq_def)
  have 2: "\<forall>b mps. find_movable_pieces b = Inr mps \<and> x \<in> set mps \<and> y \<in> set mps \<longrightarrow>
      (MovablePiece_eq x y \<longleftrightarrow> row_ix x = row_ix y \<and> col_ix x = col_ix y)"
  proof (intro allI impI)
    fix b mps
    assume a: "find_movable_pieces b = Inr mps \<and> x \<in> set mps \<and> y \<in> set mps"
    from find_movable_pieces_canonical[of b] a have "list_all (canonical b) mps" by auto
    then have "canonical b x" "canonical b y" using a by (auto simp: list_all_iff)
    then show "MovablePiece_eq x y \<longleftrightarrow> row_ix x = row_ix y \<and> col_ix x = col_ix y"
      using canonical_same_coordinates[of b x y] e by auto
  qed
  show ?thesis using 1 2 by blast
qed

theorem MovablePiece_eq_fields_witness:
  "find_movable_pieces example_board = Inr example_movable_pieces \<and>
   MovablePiece (RowInt 1) (Some 0) ''W'' 1 \<in> set example_movable_pieces \<and>
   MovablePiece (RowInt 1) (Some 1) ''W'' 2 \<in> set example_movable_pieces \<and>
   (MovablePiece_eq (MovablePiece (RowInt 1) (Some 0) ''W'' 1) (MovablePiece (RowInt 1) (Some 1) ''W'' 2) \<longleftrightarrow>
    row_ix (MovablePiece (RowInt 1) (Some 0) ''W'' 1) = row_ix (MovablePiece (RowInt 1) (Some 1) ''W'' 2) \<and>
    col_ix (MovablePiece (RowInt 1) (Some 0) ''W'' 1) = col_ix (MovablePiece (RowInt 1) (Some 1) ''W'' 2))"
proof -
  let ?x = "MovablePiece (RowInt 1) (Some 0) ''W'' 1"
  let ?y = "MovablePiece (RowInt 1) (Some 1) ''W'' 2"
  have x: "?x \<in> set example_movable_pieces" by (simp add: example_movable_pieces_def)
  have y: "?y \<in> set example_movable_pieces" by (simp add: example_movable_pieces_def)
  from MovablePiece_eq_fields[of ?x ?y] find_movable_pieces_example x y
  have "MovablePiece_eq ?x ?y \<longleftrightarrow> row_ix ?x = row_ix ?y \<and> col_ix ?x = col_ix ?y" by blast
  then show ?thesis using find_movable_pieces_example x y by blast
qed

text \<open>
  Claim C5 as stated makes the coordinates alone decide equality. Two MovablePieces for
  cell (0, 0) that differ in piece and depth have equal coordinates and are not equal.
\<close>

theorem MovablePiece_eq_coordinates_counterexample:
  "row_ix (MovablePiece (RowInt 0) (Some 0) ''A'' 1) = row_ix (MovablePiece (RowInt 0) (Some 0) ''B'' 2) \<and>
   col_ix (MovablePiece (RowInt 0) (Some 0) ''A'' 1) = col_ix (MovablePiece (RowInt 0) (Some 0) ''B'' 2) \<and>
   \<not> MovablePiece_eq (MovablePiece (RowInt 0) (Some 0) ''A'' 1) (MovablePiece (RowInt 0) (Some 0) ''B'' 2)"
  by (simp add: MovablePiece_eq_def)

subsection \<open>The backtracking search\<close>

lemma print_stats_board: "print_stats s = Inr s' \<Longrightarrow> board s' = board s"
  by (auto simp: print_stats_def Let_def split: if_splits)

lemma print_stats_cases: "(\<exists>e. print_stats s = Inl e) \<or> (\<exists>s'. print_stats s = Inr s')"
  by (cases "print_stats s") auto

lemma search_moves_board:
  assumes bs: "\<And>s s'. backtracking_search md5 fuel s = Some (Inr s') \<Longrightarrow> board s' = board s"
  shows "(\<forall>mv\<in>set mvs. legal (board s) mv) \<Longrightarrow>
         search_moves md5 fuel ix n mvs s = Some (Inr s') \<Longrightarrow> board s' = board s"
proof (induction mvs arbitrary: ix s)
  case Nil
  then show ?case by simp
next
  case (Cons mv rest)
  let ?s1 = "s\<lparr>trail := trail s @ [(ix, n)], moves := moves s @ [mv]\<rparr>"
  have l: "legal (board s) mv" using Cons.prems(1) by simp
  from legal_do_move[OF l] obtain b1 where
    b1: "do_move (board s) mv = Inr b1" "undo_move b1 mv = Inr (board s)" by blast
  from Cons.prems(2) b1(1) obtain s2 where
    s2: "backtracking_search md5 fuel (?s1\<lparr>board := b1\<rparr>) = Some (Inr s2)"
    by (auto simp: Let_def split: option.splits sum.splits)
  have bs2: "board s2 = b1" using bs[OF s2] by simp
  from Cons.prems(2) b1 s2 bs2 obtain m moves' t trail' where
    r: "pop (moves s2) = Inr (m, moves')" "pop (trail s2) = Inr (t, trail')"
       "search_moves md5 fuel (ix + 1) n rest
          (s2\<lparr>board := board s, moves := moves', trail := trail'\<rparr>) = Some (Inr s')"
    by (auto simp: Let_def split: option.splits sum.splits)
  let ?s3 = "s2\<lparr>board := board s, moves := moves', trail := trail'\<rparr>"
  have "\<forall>mv\<in>set rest. legal (board ?s3) mv" using Cons.prems(1) by simp
  from Cons.IH[OF this r(3)] show ?case by simp
qed

lemma backtracking_search_board:
  "backtracking_search md5 fuel s = Some (Inr s') \<Longrightarrow> board s' = board s"
proof (induction fuel arbitrary: s s')
  case 0
  then show ?case by simp
next
  case (Suc fuel)
  show ?case
  proof (cases "is_empty (board s)")
    case True
    then show ?thesis using Suc.prems by (auto dest: print_stats_board)
  next
    case ne: False
    show ?thesis
    proof (cases "get_state md5 (board s) \<in> seen_states s")
      case True
      then show ?thesis using Suc.prems ne by simp
    next
      case ns: False
      let ?s1 = "s\<lparr>seen_states := insert (get_state md5 (board s)) (seen_states s)\<rparr>"
      from find_movable_pieces_canonical[of "board s"] obtain mps where
        mps: "find_movable_pieces (board s) = Inr mps" by blast
      show ?thesis
      proof (cases "find_moves mps = []")
        case True
        then show ?thesis using Suc.prems ne ns mps by (auto simp: Let_def dest: print_stats_board)
      next
        case False
        then have sm: "search_moves md5 fuel 0 (length (find_moves mps)) (find_moves mps) ?s1 = Some (Inr s')"
          using Suc.prems ne ns mps by (simp add: Let_def)
        have "\<forall>mv\<in>set (find_moves mps). legal (board ?s1) mv"
          using found_moves_legal[OF mps] by simp
        from search_moves_board[OF Suc.IH this sm] show ?thesis by simp
      qed
    qed
  qed
qed

lemma search_moves_returns:
  assumes bs: "\<And>s. total_pieces (board s) < 2 * fuel \<Longrightarrow> \<exists>r. backtracking_search md5 fuel s = Some r"
  shows "(\<forall>mv\<in>set mvs. legal (board s) mv) \<Longrightarrow> total_pieces (board s) < 2 * fuel + 2 \<Longrightarrow>
         \<exists>r. search_moves md5 fuel ix n mvs s = Some r"
proof (induction mvs arbitrary: ix s)
  case Nil
  then show ?case by simp
next
  case (Cons mv rest)
  let ?s1 = "s\<lparr>trail := trail s @ [(ix, n)], moves := moves s @ [mv]\<rparr>"
  have l: "legal (board s) mv" using Cons.prems(1) by simp
  from legal_do_move[OF l] obtain b1 where
    b1: "do_move (board s) mv = Inr b1" "undo_move b1 mv = Inr (board s)"
      "mset (all_pieces (board s)) =
         add_mset (piece (fst mv)) (add_mset (piece (snd mv)) (mset (all_pieces b1)))" by blast
  have "size (mset (all_pieces (board s))) = size (mset (all_pieces b1)) + 2"
    using b1(3) by simp
  then have "total_pieces b1 + 2 = total_pieces (board s)" by (simp add: total_pieces_def)
  then have "total_pieces (board (?s1\<lparr>board := b1\<rparr>)) < 2 * fuel" using Cons.prems(2) by simp
  from bs[OF this] obtain r where r: "backtracking_search md5 fuel (?s1\<lparr>board := b1\<rparr>) = Some r"
    by blast
  show ?case
  proof (cases r)
    case (Inl e)
    then show ?thesis using b1(1) r by (simp add: Let_def)
  next
    case (Inr s2)
    have bs2: "board s2 = b1" using backtracking_search_board[of md5 fuel _ s2] r Inr by simp
    show ?thesis
    proof (cases "pop (moves s2)")
      case (Inl e)
      then show ?thesis using b1 r Inr bs2 by (simp add: Let_def)
    next
      case pm: (Inr mm)
      obtain m moves' where mm: "mm = (m, moves')" by (cases mm)
      show ?thesis
      proof (cases "pop (trail s2)")
        case (Inl e)
        then show ?thesis using b1 r Inr bs2 pm mm by (simp add: Let_def)
      next
        case pt: (Inr tt)
        obtain t trail' where tt: "tt = (t, trail')" by (cases tt)
        let ?s3 = "s2\<lparr>board := board s, moves := moves', trail := trail'\<rparr>"
        have "\<forall>mv\<in>set rest. legal (board ?s3) mv" using Cons.prems(1) by simp
        moreover have "total_pieces (board ?s3) < 2 * fuel + 2" using Cons.prems(2) by simp
        ultimately obtain r' where "search_moves md5 fuel (ix + 1) n rest ?s3 = Some r'"
          using Cons.IH by blast
        then show ?thesis using b1 r Inr bs2 pm mm pt tt by (simp add: Let_def)
      qed
    qed
  qed
qed

lemma backtracking_search_returns:
  "total_pieces (board s) < 2 * fuel \<Longrightarrow> \<exists>r. backtracking_search md5 fuel s = Some r"
proof (induction fuel arbitrary: s)
  case 0
  then show ?case by simp
next
  case (Suc fuel)
  show ?case
  proof (cases "is_empty (board s)")
    case True
    then show ?thesis by simp
  next
    case ne: False
    show ?thesis
    proof (cases "get_state md5 (board s) \<in> seen_states s")
      case True
      then show ?thesis using ne by simp
    next
      case ns: False
      let ?s1 = "s\<lparr>seen_states := insert (get_state md5 (board s)) (seen_states s)\<rparr>"
      from find_movable_pieces_canonical[of "board s"] obtain mps where
        mps: "find_movable_pieces (board s) = Inr mps" by blast
      show ?thesis
      proof (cases "find_moves mps = []")
        case True
        then show ?thesis using ne ns mps by (simp add: Let_def)
      next
        case False
        have "\<forall>mv\<in>set (find_moves mps). legal (board ?s1) mv"
          using found_moves_legal[OF mps] by simp
        moreover have "total_pieces (board ?s1) < 2 * fuel + 2" using Suc.prems by simp
        ultimately obtain r where
          "search_moves md5 fuel 0 (length (find_moves mps)) (find_moves mps) ?s1 = Some r"
          using search_moves_returns[OF Suc.IH] by blast
        then show ?thesis using ne ns mps False by (simp add: Let_def)
      qed
    qed
  qed
qed

lemma pair_board_search:
  "backtracking_search (\<lambda>x. 0) 2 (Searcher_init pair_board) =
   Some (Inr \<lparr>board = pair_board, moves = [], trail = [],
              solutions = {[(MovablePiece (RowInt 0) (Some 0) ''A'' 1,
                             MovablePiece (RowInt 0) (Some 1) ''A'' 1)]},
              stats_calls = 1, seen_states = {0}\<rparr>)"
  by code_simp

text \<open>
  Claim C9: for every searcher state and digest function, \<open>backtracking_search\<close>
  terminates. Every nested call works on a board with two pieces fewer, so the nesting
  is at most half the piece count deep: with more fuel than that the model returns a
  result (a normal return or a raised error), never running out of fuel. The value of
  the bound depends on the board alone; the search has no depth limit of its own.
\<close>

theorem backtracking_search_terminates:
  "total_pieces (board s) < 2 * fuel \<Longrightarrow> \<exists>r. backtracking_search md5 fuel s = Some r"
  by (rule backtracking_search_returns)

theorem backtracking_search_terminates_witness:
  "total_pieces (board (Searcher_init example_board)) < 2 * 73 \<and>
   (\<exists>r. backtracking_search (\<lambda>x. 0) 73 (Searcher_init example_board) = Some r)"
proof -
  have t: "total_pieces (board (Searcher_init example_board)) < 2 * 73"
    by (simp add: total_pieces_def all_pieces_def grid_pieces_def example_board_def Searcher_init_def)
  from backtracking_search_terminates[OF t, of "\<lambda>x. 0"] t show ?thesis by blast
qed

text \<open>
  Claim C10: whenever \<open>backtracking_search\<close> returns, the searcher's board is the
  board it had when the call began, stack by stack and pile by pile: every move done in
  the loop is undone, innermost first, before the call returns.
\<close>

theorem backtracking_search_restores_board:
  "backtracking_search md5 fuel s = Some (Inr s') \<Longrightarrow> board s' = board s"
  by (rule backtracking_search_board)

theorem backtracking_search_restores_board_witness:
  "backtracking_search (\<lambda>x. 0) 2 (Searcher_init pair_board) =
   Some (Inr \<lparr>board = pair_board, moves = [], trail = [],
              solutions = {[(MovablePiece (RowInt 0) (Some 0) ''A'' 1,
                             MovablePiece (RowInt 0) (Some 1) ''A'' 1)]},
              stats_calls = 1, seen_states = {0}\<rparr>) \<and>
   board \<lparr>board = pair_board, moves = [], trail = [],
              solutions = {[(MovablePiece (RowInt 0) (Some 0) ''A'' 1,
                             MovablePiece (RowInt 0) (Some 1) ''A'' 1)]},
              stats_calls = 1, seen_states = {0::digest}\<rparr> = board (Searcher_init pair_board)"
  using pair_board_search backtracking_search_restores_board[OF pair_board_search] by blast

subsection \<open>get\_state\<close>


















end
